theory Spec2Isabelle
  imports Main
begin

section \<open>Message model\<close>

text \<open>
  The enumerations \<open>Direction\<close> and \<open>Position\<close> of \<^verbatim>\<open>causality.py\<close> and the
  dataclass \<open>Message\<close>. The field \<open>id\<close> of the source is called \<open>id_msg\<close> here, since
  \<open>id\<close> is the identity function of HOL. Python's unbounded integers are \<open>int\<close>.
\<close>

datatype Direction = REQ | RESP

datatype Position = INITIAL | INTERMEDIARY | FINAL

record Message =
  id_msg :: int
  origin :: string
  destination :: string
  operation :: string
  direction :: Direction
  position :: Position

section \<open>Causality predicate\<close>

definition causal :: "Message \<Rightarrow> Message \<Rightarrow> bool" where
  "causal a b =
     (\<not> ((direction a = RESP \<and> direction b = REQ)
         \<or> (destination a \<noteq> origin b)
         \<or> (position a = FINAL)
         \<or> (position b = INITIAL)
         \<or> (id_msg a = id_msg b)))"

section \<open>Errors, dictionaries and sets\<close>

text \<open>
  The exceptions the modelled functions can raise: \<open>KeyError\<close> of a dictionary lookup
  (it carries the missing key) and \<open>ValueError\<close> of \<open>list.index\<close>.

  A Python \<open>dict\<close> is modelled by an association list in insertion order, which is the
  order in which \<open>for k in d\<close> visits the keys; \<open>d[k]\<close> is \<open>map_of d k\<close>, and \<open>None\<close>
  stands for the \<open>KeyError\<close>. A Python \<open>set\<close> of ids is modelled by the list of its
  members in iteration order. That order is not specified by Python, so every property
  below is proved for all lists. The enumerator only reads the graph, so it takes the
  graph as the value \<open>graph\<close>: each key with the members of its set. The graph builder
  mutates the sets in place, and several keys may hold the same set object, so it works
  on \<open>graph_objects\<close>: the dictionary from keys to references, and the set each
  reference denotes. The interpreter's recursion limit is not modelled.
\<close>

datatype error = KeyError int | ValueError

type_synonym graph = "(int \<times> int list) list"

type_synonym library = "(int \<times> Message) list"

text \<open>\<open>s.add(x)\<close>: a set that holds \<open>x\<close> is left as it is.\<close>

definition set_add :: "int list \<Rightarrow> int \<Rightarrow> int list" where
  "set_add s x = (if x \<in> set s then s else s @ [x])"

text \<open>
  A graph as the builder sees it. \<open>slots\<close> is the dictionary: each key with the
  reference it holds. \<open>objects\<close> gives the set behind each reference; every reference
  denotes a set, as in Python. \<open>contents\<close> reads the dictionary out as a value.
\<close>

record graph_objects =
  slots :: "(int \<times> nat) list"
  objects :: "nat \<Rightarrow> int list"

definition contents :: "graph_objects \<Rightarrow> graph" where
  "contents g = map (\<lambda>(k, r). (k, objects g r)) (slots g)"

section \<open>Graph builder\<close>

text \<open>
  \<open>build_relationships\<close> mutates the sets of the caller's graph and returns nothing, so
  the model returns the graph as the call leaves it, together with the exception raised,
  if any. \<open>relate_to\<close> is the inner loop over \<open>b_id\<close> for one \<open>a_id\<close>, \<open>relate_all\<close> the
  outer loop; both run over the keys of the dictionary, which the body never changes.
  \<open>graph[a_id].add(b_id)\<close> looks up the reference under \<open>a_id\<close> and adds to the set it
  denotes, which every key holding that reference sees. Python evaluates
  \<open>library[a_id]\<close> before \<open>library[b_id]\<close>.
\<close>

fun relate_to ::
    "int \<Rightarrow> int list \<Rightarrow> (int \<times> nat) list \<Rightarrow> (nat \<Rightarrow> int list) \<Rightarrow> library
      \<Rightarrow> (nat \<Rightarrow> int list) \<times> error option" where
  "relate_to a_id [] refs objs library = (objs, None)"
| "relate_to a_id (b_id # rest) refs objs library =
     (case map_of library a_id of
        None \<Rightarrow> (objs, Some (KeyError a_id))
      | Some a \<Rightarrow>
          (case map_of library b_id of
             None \<Rightarrow> (objs, Some (KeyError b_id))
           | Some b \<Rightarrow>
               if causal a b
               then (case map_of refs a_id of
                       None \<Rightarrow> (objs, Some (KeyError a_id))
                     | Some r \<Rightarrow>
                         relate_to a_id rest refs (objs(r := set_add (objs r) b_id)) library)
               else relate_to a_id rest refs objs library))"

fun relate_all ::
    "int list \<Rightarrow> int list \<Rightarrow> (int \<times> nat) list \<Rightarrow> (nat \<Rightarrow> int list) \<Rightarrow> library
      \<Rightarrow> (nat \<Rightarrow> int list) \<times> error option" where
  "relate_all [] keys refs objs library = (objs, None)"
| "relate_all (a_id # rest) keys refs objs library =
     (case relate_to a_id keys refs objs library of
        (objs', None) \<Rightarrow> relate_all rest keys refs objs' library
      | (objs', Some e) \<Rightarrow> (objs', Some e))"

definition build_relationships ::
    "graph_objects \<Rightarrow> library \<Rightarrow> graph_objects \<times> error option" where
  "build_relationships graph library =
     (case relate_all (map fst (slots graph)) (map fst (slots graph))
             (slots graph) (objects graph) library of
        (objs, e) \<Rightarrow> (graph\<lparr>objects := objs\<rparr>, e))"

section \<open>Sequence enumerator\<close>

text \<open>
  \<open>recursive_build_sequences\<close> appends to the caller's list \<open>sequence_destination\<close>;
  the model returns that list as the call leaves it, and the exception raised, if any.
  \<open>explore_successors\<close> is the \<open>for next_id in graph[starting_id]\<close> loop: an exception
  in one recursive call ends the loop. Every recursive call has a longer accumulation,
  and none is made once the length exceeds \<open>max_depth\<close>, which is why the recursion ends.
\<close>

function recursive_build_sequences ::
    "int \<Rightarrow> int list \<Rightarrow> int list list \<Rightarrow> int \<Rightarrow> graph \<Rightarrow> library
      \<Rightarrow> int list list \<times> error option"
  and explore_successors ::
    "int list \<Rightarrow> int list \<Rightarrow> int list list \<Rightarrow> int \<Rightarrow> graph \<Rightarrow> library
      \<Rightarrow> int list list \<times> error option"
where
  "recursive_build_sequences starting_id accumulated sequence_destination max_depth graph library =
     (if starting_id \<in> set accumulated then (sequence_destination, None)
      else let new_accumulation = accumulated @ [starting_id] in
        if int (length new_accumulation) > max_depth then (sequence_destination, None)
        else (case map_of library starting_id of
            None \<Rightarrow> (sequence_destination, Some (KeyError starting_id))
          | Some m \<Rightarrow>
              if position m = FINAL
              then (sequence_destination @ [new_accumulation], None)
              else (case map_of graph starting_id of
                  None \<Rightarrow> (sequence_destination, Some (KeyError starting_id))
                | Some successors \<Rightarrow>
                    explore_successors successors new_accumulation sequence_destination
                      max_depth graph library)))"
| "explore_successors [] new_accumulation sequence_destination max_depth graph library =
     (sequence_destination, None)"
| "explore_successors (next_id # rest) new_accumulation sequence_destination max_depth graph library =
     (case recursive_build_sequences next_id new_accumulation sequence_destination
             max_depth graph library of
        (dest, None) \<Rightarrow> explore_successors rest new_accumulation dest max_depth graph library
      | (dest, Some e) \<Rightarrow> (dest, Some e))"
  by pat_completeness auto
termination
  apply (relation "measures [
     (\<lambda>x. case x of Inl (s, acc, d, k, g, l) \<Rightarrow> nat (k + 1 - int (length acc))
               | Inr (ns, acc, d, k, g, l) \<Rightarrow> nat (k + 1 - int (length acc))),
     (\<lambda>x. case x of Inl _ \<Rightarrow> 0 | Inr (ns, acc, d, k, g, l) \<Rightarrow> Suc (length ns))]")
  apply auto
  done

declare recursive_build_sequences.simps [simp del]

text \<open>
  \<open>build_sequences\<close> owns the destination list: when the recursion raises, the
  exception passes through and the list is lost.
\<close>

definition build_sequences :: "int \<Rightarrow> int \<Rightarrow> graph \<Rightarrow> library \<Rightarrow> error + int list list" where
  "build_sequences starting_id max_depth graph library =
     (case recursive_build_sequences starting_id [] [] max_depth graph library of
        (dest, None) \<Rightarrow> Inr dest
      | (dest, Some e) \<Rightarrow> Inl e)"

text \<open>The loop of \<open>generate_all_sequences\<close> over the keys of the library.\<close>

fun collect_sequences ::
    "int list \<Rightarrow> int list list \<Rightarrow> library \<Rightarrow> graph \<Rightarrow> int \<Rightarrow> error + int list list" where
  "collect_sequences [] sequences library graph max_depth = Inr sequences"
| "collect_sequences (message_id # rest) sequences library graph max_depth =
     (case map_of library message_id of
        None \<Rightarrow> Inl (KeyError message_id)
      | Some m \<Rightarrow>
          if position m = INITIAL
          then (case build_sequences message_id max_depth graph library of
              Inl e \<Rightarrow> Inl e
            | Inr built \<Rightarrow> collect_sequences rest (sequences @ built) library graph max_depth)
          else collect_sequences rest sequences library graph max_depth)"

definition generate_all_sequences :: "library \<Rightarrow> graph \<Rightarrow> int \<Rightarrow> error + int list list" where
  "generate_all_sequences library graph max_depth =
     collect_sequences (map fst library) [] library graph max_depth"

section \<open>Sequence projector\<close>

text \<open>
  \<open>keep_whitelisted\<close> is the inner loop that fills \<open>new_sequence\<close>, \<open>project_loop\<close> the
  outer loop that fills \<open>new_sequences\<close>. \<open>list.sort(key=len)\<close> is a stable sort; the
  result of a stable sort is determined by the list and the key, and \<open>sort_key\<close> is one.
\<close>

fun keep_whitelisted :: "int list \<Rightarrow> int set \<Rightarrow> int list \<Rightarrow> int list" where
  "keep_whitelisted [] whitelist new_sequence = new_sequence"
| "keep_whitelisted (i # rest) whitelist new_sequence =
     (if i \<in> whitelist then keep_whitelisted rest whitelist (new_sequence @ [i])
      else keep_whitelisted rest whitelist new_sequence)"

fun project_loop :: "int list list \<Rightarrow> int set \<Rightarrow> int list list \<Rightarrow> int list list" where
  "project_loop [] whitelist new_sequences = new_sequences"
| "project_loop (sequence # rest) whitelist new_sequences =
     (let new_sequence = keep_whitelisted sequence whitelist [] in
      if length new_sequence > 1 \<and> \<not> new_sequence \<in> set new_sequences
      then project_loop rest whitelist (new_sequences @ [new_sequence])
      else project_loop rest whitelist new_sequences)"

definition project_sequences :: "int list list \<Rightarrow> int set \<Rightarrow> int list list" where
  "project_sequences sequences whitelist =
     sort_key length (project_loop sequences whitelist [])"

text \<open>
  The projector as the specification words it: project each sequence, discard what has
  fewer than two elements, keep the first occurrence of each result, sort by length.
\<close>

function dedup_first :: "'a list \<Rightarrow> 'a list" where
  "dedup_first [] = []"
| "dedup_first (x # xs) = x # dedup_first (filter (\<lambda>y. y \<noteq> x) xs)"
  by pat_completeness auto
termination
  by (relation "measure length") (auto simp: less_Suc_eq_le)

definition project_spec :: "int list list \<Rightarrow> int set \<Rightarrow> int list list" where
  "project_spec sequences whitelist =
     sort_key length
       (dedup_first
          (filter (\<lambda>s. \<not> length s < 2)
             (map (filter (\<lambda>i. i \<in> whitelist)) sequences)))"

section \<open>Pair filter\<close>

text \<open>
  \<open>list_index\<close> is Python's \<open>list.index\<close>: the position of the first occurrence, and a
  \<open>ValueError\<close> when there is none.
\<close>

fun list_index :: "int list \<Rightarrow> int \<Rightarrow> error + nat" where
  "list_index [] a = Inl ValueError"
| "list_index (x # xs) a =
     (if x = a then Inr 0
      else (case list_index xs a of Inl e \<Rightarrow> Inl e | Inr i \<Rightarrow> Inr (Suc i)))"

definition pair_filter :: "int list \<Rightarrow> int \<Rightarrow> int \<Rightarrow> error + bool" where
  "pair_filter sequence a b =
     (if a \<in> set sequence \<and> b \<in> set sequence
      then (case list_index sequence a of
              Inl e \<Rightarrow> Inl e
            | Inr i \<Rightarrow>
                (case list_index sequence b of
                   Inl e \<Rightarrow> Inl e
                 | Inr j \<Rightarrow> Inr (i + 1 = j)))
      else if a \<in> set sequence \<or> b \<in> set sequence then Inr False
      else Inr True)"

section \<open>Vocabulary of the properties\<close>

text \<open>\<open>has_position library i p\<close>: the library holds a message under \<open>i\<close>, at position \<open>p\<close>.\<close>

definition has_position :: "library \<Rightarrow> int \<Rightarrow> Position \<Rightarrow> bool" where
  "has_position library i p =
     (case map_of library i of None \<Rightarrow> False | Some m \<Rightarrow> position m = p)"

text \<open>\<open>successors graph a\<close>: the adjacency set \<open>graph[a]\<close>, empty for an id that is no key.\<close>

definition successors :: "graph \<Rightarrow> int \<Rightarrow> int set" where
  "successors graph a = (case map_of graph a of None \<Rightarrow> {} | Some s \<Rightarrow> set s)"

text \<open>
  What holds of a sequence \<open>x\<close> emitted by a call with accumulation \<open>accumulated\<close> and
  start \<open>starting_id\<close>: it extends the accumulation by the start and more ids, is no
  longer than \<open>max_depth\<close>, has no repetition if the accumulation had none, ends at a
  FINAL message, and none of the ids added before the last is FINAL.
\<close>

definition emitted_from :: "library \<Rightarrow> int \<Rightarrow> int list \<Rightarrow> int \<Rightarrow> int list \<Rightarrow> bool" where
  "emitted_from library max_depth accumulated starting_id x =
     (\<exists>t. x = accumulated @ starting_id # t
        \<and> int (length x) \<le> max_depth
        \<and> (distinct accumulated \<longrightarrow> distinct x)
        \<and> has_position library (last x) FINAL
        \<and> (\<forall>y\<in>set (butlast (starting_id # t)). \<not> has_position library y FINAL))"

text \<open>
  \<open>explored_path graph library p\<close>: the enumeration can walk \<open>p\<close>, that is, every id
  of \<open>p\<close> but the last is a non-FINAL message of the library and has an edge to the
  next id. \<open>lookup_fails graph library x\<close>: a call on \<open>x\<close> that passes both guards
  raises, because \<open>x\<close> is no key of the library, or is a non-FINAL message and no key of
  the graph.
\<close>

fun explored_path :: "graph \<Rightarrow> library \<Rightarrow> int list \<Rightarrow> bool" where
  "explored_path graph library [] = True"
| "explored_path graph library [x] = True"
| "explored_path graph library (x # y # rest) =
     ((case map_of library x of None \<Rightarrow> False | Some m \<Rightarrow> position m \<noteq> FINAL)
      \<and> (case map_of graph x of None \<Rightarrow> False | Some nexts \<Rightarrow> y \<in> set nexts)
      \<and> explored_path graph library (y # rest))"

definition lookup_fails :: "graph \<Rightarrow> library \<Rightarrow> int \<Rightarrow> bool" where
  "lookup_fails graph library x =
     (case map_of library x of
        None \<Rightarrow> True
      | Some m \<Rightarrow> position m \<noteq> FINAL \<and> map_of graph x = None)"

text \<open>
  \<open>raising_path graph library max_depth accumulated p\<close>: from a call with accumulation
  \<open>accumulated\<close> the enumeration can walk the repetition-free path \<open>p\<close>, which avoids
  the accumulation and stays within the depth, to an id whose lookup fails.
\<close>

definition raising_path :: "graph \<Rightarrow> library \<Rightarrow> int \<Rightarrow> int list \<Rightarrow> int list \<Rightarrow> bool" where
  "raising_path graph library max_depth accumulated p =
     (p \<noteq> [] \<and> distinct p \<and> set p \<inter> set accumulated = {}
      \<and> int (length accumulated + length p) \<le> max_depth
      \<and> explored_path graph library p \<and> lookup_fails graph library (last p))"

section \<open>The scenario of the specification\<close>

text \<open>
  Three messages: 1 (X to Y, login, request, INITIAL), 2 (Y to X, login-ack, response,
  FINAL) and 3 (X to Z, ping, request, INITIAL).
\<close>

definition scenario_library :: library where
  "scenario_library =
     [(1, \<lparr>id_msg = 1, origin = ''X'', destination = ''Y'', operation = ''login'',
            direction = REQ, position = INITIAL\<rparr>),
      (2, \<lparr>id_msg = 2, origin = ''Y'', destination = ''X'', operation = ''login-ack'',
            direction = RESP, position = FINAL\<rparr>),
      (3, \<lparr>id_msg = 3, origin = ''X'', destination = ''Z'', operation = ''ping'',
            direction = REQ, position = INITIAL\<rparr>)]"

text \<open>
  The empty skeleton over the scenario as \<open>build_graph\<close> creates it, each key with a set
  of its own; the skeleton \<open>dict.fromkeys([1, 2, 3], set())\<close>, in which the three keys
  hold one set; and the graph of the scenario once the relationships are built.
\<close>

definition scenario_skeleton :: graph_objects where
  "scenario_skeleton = \<lparr>slots = [(1, 0), (2, 1), (3, 2)], objects = (\<lambda>r. [])\<rparr>"

definition shared_skeleton :: graph_objects where
  "shared_skeleton = \<lparr>slots = [(1, 0), (2, 0), (3, 0)], objects = (\<lambda>r. [])\<rparr>"

definition scenario_graph :: graph where
  "scenario_graph = [(1, [2]), (2, []), (3, [])]"

text \<open>
  A chain of \<open>n\<close> messages \<open>1, ..., n\<close>, the last one FINAL, each with an edge to the
  next; and a graph over the scenario in which the FINAL message 2 has outgoing edges.
\<close>

definition chain_library :: "int \<Rightarrow> library" where
  "chain_library n =
     map (\<lambda>i. (i, \<lparr>id_msg = i, origin = ''E'', destination = ''E'', operation = ''op'',
                    direction = REQ,
                    position = (if i = n then FINAL
                                else if i = 1 then INITIAL else INTERMEDIARY)\<rparr>))
       [1..n]"

definition chain_graph :: "int \<Rightarrow> graph" where
  "chain_graph n = map (\<lambda>i. (i, [i + 1])) [1..n]"

definition leafy_graph :: graph where
  "leafy_graph = [(1, [2]), (2, [1, 3]), (3, [])]"

text \<open>
  Graphs over the scenario with an unknown id: an edge to the unknown id 9, an edge to
  the FINAL message 2 that is no key of the graph, and a skeleton with the unknown key 9,
  each key with an empty set of its own.
\<close>

definition dangling_graph :: graph where
  "dangling_graph = [(1, [9])]"

definition final_only_in_library_graph :: graph where
  "final_only_in_library_graph = [(1, [2])]"

definition unknown_key_skeleton :: graph_objects where
  "unknown_key_skeleton = \<lparr>slots = [(1, 0), (2, 1), (9, 2)], objects = (\<lambda>r. [])\<rparr>"

section \<open>Properties of the causality predicate\<close>

text \<open>
  Claim C1. \<open>causal a b\<close> holds exactly when all five conditions hold: not (a is a
  response and b a request), the destination of a is the origin of b, a is not FINAL,
  b is not INITIAL, and the ids differ. Operation names play no part: replacing them
  leaves the result unchanged. Hence causal is irreflexive, and it is false whenever the
  destination of a differs from the origin of b, whenever a is FINAL and whenever b is
  INITIAL.
\<close>

theorem causal_iff_five_conditions:
  "(causal a b \<longleftrightarrow>
      \<not> (direction a = RESP \<and> direction b = REQ)
      \<and> destination a = origin b
      \<and> position a \<noteq> FINAL
      \<and> position b \<noteq> INITIAL
      \<and> id_msg a \<noteq> id_msg b)
   \<and> causal (a\<lparr>operation := oa\<rparr>) (b\<lparr>operation := ob\<rparr>) = causal a b
   \<and> \<not> causal m m
   \<and> (destination a \<noteq> origin b \<longrightarrow> \<not> causal a b)
   \<and> (position a = FINAL \<longrightarrow> \<not> causal a b)
   \<and> (position b = INITIAL \<longrightarrow> \<not> causal a b)"
  by (auto simp add: causal_def)

theorem causal_iff_five_conditions_witness:
  "causal
     \<lparr>id_msg = 1, origin = ''X'', destination = ''Y'', operation = ''login'',
      direction = REQ, position = INITIAL\<rparr>
     \<lparr>id_msg = 2, origin = ''Y'', destination = ''X'', operation = ''login-ack'',
      direction = RESP, position = FINAL\<rparr>
   \<and> \<not> causal
     \<lparr>id_msg = 2, origin = ''Y'', destination = ''X'', operation = ''login-ack'',
      direction = RESP, position = FINAL\<rparr>
     \<lparr>id_msg = 1, origin = ''X'', destination = ''Y'', operation = ''login'',
      direction = REQ, position = INITIAL\<rparr>
   \<and> \<not> causal
     \<lparr>id_msg = 1, origin = ''X'', destination = ''Y'', operation = ''login'',
      direction = REQ, position = INITIAL\<rparr>
     \<lparr>id_msg = 3, origin = ''X'', destination = ''Z'', operation = ''ping'',
      direction = REQ, position = INITIAL\<rparr>"
  using causal_iff_five_conditions
    [of "\<lparr>id_msg = 1, origin = ''X'', destination = ''Y'', operation = ''login'',
          direction = REQ, position = INITIAL\<rparr>"
        "\<lparr>id_msg = 2, origin = ''Y'', destination = ''X'', operation = ''login-ack'',
          direction = RESP, position = FINAL\<rparr>"]
    causal_iff_five_conditions
    [of "\<lparr>id_msg = 2, origin = ''Y'', destination = ''X'', operation = ''login-ack'',
          direction = RESP, position = FINAL\<rparr>"
        "\<lparr>id_msg = 1, origin = ''X'', destination = ''Y'', operation = ''login'',
          direction = REQ, position = INITIAL\<rparr>"]
    causal_iff_five_conditions
    [of "\<lparr>id_msg = 1, origin = ''X'', destination = ''Y'', operation = ''login'',
          direction = REQ, position = INITIAL\<rparr>"
        "\<lparr>id_msg = 3, origin = ''X'', destination = ''Z'', operation = ''ping'',
          direction = REQ, position = INITIAL\<rparr>"]
  by simp

section \<open>Properties of the sequence enumerator\<close>

lemma rbs_cycle:
  "s \<in> set acc \<Longrightarrow> recursive_build_sequences s acc dest k g lib = (dest, None)"
  by (simp add: recursive_build_sequences.simps)

lemma rbs_too_deep:
  "k < int (length acc) + 1 \<Longrightarrow> recursive_build_sequences s acc dest k g lib = (dest, None)"
  by (simp add: recursive_build_sequences.simps)

lemma rbs_unknown:
  "s \<notin> set acc \<Longrightarrow> int (length acc) + 1 \<le> k \<Longrightarrow> map_of lib s = None \<Longrightarrow>
   recursive_build_sequences s acc dest k g lib = (dest, Some (KeyError s))"
  by (simp add: recursive_build_sequences.simps)

lemma rbs_final:
  "s \<notin> set acc \<Longrightarrow> int (length acc) + 1 \<le> k \<Longrightarrow> map_of lib s = Some m \<Longrightarrow>
   position m = FINAL \<Longrightarrow>
   recursive_build_sequences s acc dest k g lib = (dest @ [acc @ [s]], None)"
  by (simp add: recursive_build_sequences.simps)

lemma rbs_no_successors:
  "s \<notin> set acc \<Longrightarrow> int (length acc) + 1 \<le> k \<Longrightarrow> map_of lib s = Some m \<Longrightarrow>
   position m \<noteq> FINAL \<Longrightarrow> map_of g s = None \<Longrightarrow>
   recursive_build_sequences s acc dest k g lib = (dest, Some (KeyError s))"
  by (simp add: recursive_build_sequences.simps)

lemma rbs_descend:
  "s \<notin> set acc \<Longrightarrow> int (length acc) + 1 \<le> k \<Longrightarrow> map_of lib s = Some m \<Longrightarrow>
   position m \<noteq> FINAL \<Longrightarrow> map_of g s = Some ns \<Longrightarrow>
   recursive_build_sequences s acc dest k g lib =
     explore_successors ns (acc @ [s]) dest k g lib"
  by (simp add: recursive_build_sequences.simps)

lemma emitted_from_leaf:
  assumes "s \<notin> set acc" "int (length acc) + 1 \<le> k" "map_of lib s = Some m" "position m = FINAL"
  shows "emitted_from lib k acc s (acc @ [s])"
  unfolding emitted_from_def using assms
  by (intro exI[of _ "[]"]) (simp add: has_position_def)

lemma emitted_from_extend:
  assumes e: "emitted_from lib k (acc @ [s]) n x"
    and s: "s \<notin> set acc" and m: "map_of lib s = Some m" and nf: "position m \<noteq> FINAL"
  shows "emitted_from lib k acc s x"
proof -
  from e obtain t where x: "x = (acc @ [s]) @ n # t"
    and len: "int (length x) \<le> k"
    and dist: "distinct (acc @ [s]) \<longrightarrow> distinct x"
    and fin: "has_position lib (last x) FINAL"
    and mid: "\<forall>y\<in>set (butlast (n # t)). \<not> has_position lib y FINAL"
    unfolding emitted_from_def by blast
  have x': "x = acc @ s # (n # t)" using x by simp
  have d': "distinct acc \<longrightarrow> distinct x" using dist s by simp
  have "\<not> has_position lib s FINAL" using m nf by (simp add: has_position_def)
  then have mid': "\<forall>y\<in>set (butlast (s # n # t)). \<not> has_position lib y FINAL"
    using mid by simp
  show ?thesis unfolding emitted_from_def
    using x' len d' fin mid' by blast
qed


lemma rbs_emits:
  "recursive_build_sequences s acc dest k g lib = (d', e) \<Longrightarrow>
     \<exists>new. d' = dest @ new \<and> (\<forall>x\<in>set new. emitted_from lib k acc s x)"
  "explore_successors ns nacc dest k g lib = (d', e) \<Longrightarrow>
     \<exists>new. d' = dest @ new \<and> (\<forall>x\<in>set new. \<exists>n\<in>set ns. emitted_from lib k nacc n x)"
proof (induction s acc dest k g lib and ns nacc dest k g lib
       arbitrary: d' e and d' e
       rule: recursive_build_sequences_explore_successors.induct)
  case (1 s acc dest k g lib)
  have trivial: "d' = dest \<Longrightarrow> ?case" by simp
  show ?case
  proof (cases "s \<in> set acc")
    case True
    then show ?thesis using "1.prems" trivial by (simp add: rbs_cycle)
  next
    case g1: False
    show ?thesis
    proof (cases "k < int (length acc) + 1")
      case True
      then show ?thesis using "1.prems" trivial by (simp add: rbs_too_deep)
    next
      case False
      then have g2: "int (length acc) + 1 \<le> k" by simp
      show ?thesis
      proof (cases "map_of lib s")
        case None
        then show ?thesis using "1.prems" trivial g1 g2 by (simp add: rbs_unknown)
      next
        case (Some m)
        show ?thesis
        proof (cases "position m = FINAL")
          case True
          have "d' = dest @ [acc @ [s]]"
            using "1.prems" rbs_final[OF g1 g2 Some True] by simp
          moreover have "emitted_from lib k acc s (acc @ [s])"
            by (rule emitted_from_leaf[OF g1 g2 Some True])
          ultimately show ?thesis by simp
        next
          case nf: False
          show ?thesis
          proof (cases "map_of g s")
            case None
            then show ?thesis
              using "1.prems" trivial rbs_no_successors[OF g1 g2 Some nf None] by simp
          next
            case succ: (Some ns)
            have ex: "explore_successors ns (acc @ [s]) dest k g lib = (d', e)"
              using "1.prems" rbs_descend[OF g1 g2 Some nf succ] by simp
            have g2': "\<not> k < int (length (acc @ [s]))" using g2 by simp
            from "1.IH"[OF g1 refl g2' Some nf succ ex]
            obtain new where d': "d' = dest @ new"
              and all: "\<forall>x\<in>set new. \<exists>n\<in>set ns. emitted_from lib k (acc @ [s]) n x"
              by blast
            have "\<forall>x\<in>set new. emitted_from lib k acc s x"
              using all emitted_from_extend[OF _ g1 Some nf] by blast
            with d' show ?thesis by blast
          qed
        qed
      qed
    qed
  qed
next
  case (2 nacc dest k g lib)
  then show ?case by simp
next
  case (3 n rest nacc dest k g lib)
  obtain d1 e1 where r: "recursive_build_sequences n nacc dest k g lib = (d1, e1)"
    by (cases "recursive_build_sequences n nacc dest k g lib")
  from "3.IH"(1)[OF r] obtain new1 where d1: "d1 = dest @ new1"
    and a1: "\<forall>x\<in>set new1. emitted_from lib k nacc n x"
    by blast
  show ?case
  proof (cases e1)
    case (Some err)
    with r "3.prems" have "d' = d1" by simp
    with d1 a1 show ?thesis by auto
  next
    case None
    with r "3.prems" have ex: "explore_successors rest nacc d1 k g lib = (d', e)" by simp
    from "3.IH"(2)[OF r[symmetric] None ex] obtain new2 where d2: "d' = d1 @ new2"
      and a2: "\<forall>x\<in>set new2. \<exists>n\<in>set rest. emitted_from lib k nacc n x"
      by blast
    have "d' = dest @ (new1 @ new2)" using d1 d2 by simp
    moreover have "\<forall>x\<in>set (new1 @ new2). \<exists>m\<in>set (n # rest). emitted_from lib k nacc m x"
      using a1 a2 by auto
    ultimately show ?thesis by blast
  qed
qed


lemma build_sequences_emits:
  assumes "build_sequences s k g lib = Inr out" and "x \<in> set out"
  shows "emitted_from lib k [] s x"
proof -
  obtain d e where r: "recursive_build_sequences s [] [] k g lib = (d, e)"
    by (cases "recursive_build_sequences s [] [] k g lib")
  with assms(1) have "d = out"
    by (cases e) (simp_all add: build_sequences_def)
  with rbs_emits(1)[OF r] assms(2) show ?thesis by auto
qed

lemma collect_sequences_emits:
  "collect_sequences ks seqs lib g k = Inr out \<Longrightarrow>
     \<exists>new. out = seqs @ new \<and>
       (\<forall>x\<in>set new. \<exists>i\<in>set ks. has_position lib i INITIAL \<and> emitted_from lib k [] i x)"
proof (induction ks arbitrary: seqs)
  case Nil
  then show ?case by simp
next
  case (Cons i ks)
  from Cons.prems obtain m where m: "map_of lib i = Some m"
    by (cases "map_of lib i") simp_all
  show ?case
  proof (cases "position m = INITIAL")
    case False
    with Cons.prems m have "collect_sequences ks seqs lib g k = Inr out" by simp
    from Cons.IH[OF this] show ?thesis by auto
  next
    case True
    with Cons.prems m obtain built where b: "build_sequences i k g lib = Inr built"
      and c: "collect_sequences ks (seqs @ built) lib g k = Inr out"
      by (cases "build_sequences i k g lib") simp_all
    from Cons.IH[OF c] obtain new where o: "out = (seqs @ built) @ new"
      and a: "\<forall>x\<in>set new. \<exists>j\<in>set ks. has_position lib j INITIAL \<and> emitted_from lib k [] j x"
      by blast
    have i: "has_position lib i INITIAL" using m True by (simp add: has_position_def)
    have "\<forall>x\<in>set built. emitted_from lib k [] i x"
      using build_sequences_emits[OF b] by blast
    with a i have "\<forall>x\<in>set (built @ new).
        \<exists>j\<in>set (i # ks). has_position lib j INITIAL \<and> emitted_from lib k [] j x"
      by auto
    moreover have "out = seqs @ (built @ new)" using o by simp
    ultimately show ?thesis by blast
  qed
qed

lemma generate_all_sequences_emits:
  assumes "generate_all_sequences lib g k = Inr out" and "x \<in> set out"
  shows "\<exists>i. has_position lib i INITIAL \<and> emitted_from lib k [] i x"
  using collect_sequences_emits[OF assms(1)[unfolded generate_all_sequences_def]] assms(2)
  by auto

lemma emitted_from_distinct: "emitted_from lib k [] s x \<Longrightarrow> distinct x"
  by (auto simp: emitted_from_def)

lemma emitted_from_length: "emitted_from lib k acc s x \<Longrightarrow> int (length x) \<le> k"
  by (auto simp: emitted_from_def)

lemma emitted_from_shape:
  assumes "emitted_from lib k [] s x"
  shows "x \<noteq> [] \<and> hd x = s \<and> has_position lib (last x) FINAL
         \<and> (\<forall>y\<in>set (butlast x). \<not> has_position lib y FINAL)"
  using assms by (auto simp: emitted_from_def)

text \<open>
  Claim C2. Every sequence in the output of \<open>build_sequences\<close>, and every sequence in
  the output of \<open>generate_all_sequences\<close>, for any graph, library and depth, has
  pairwise distinct elements.
\<close>

theorem sequences_pairwise_distinct:
  "(build_sequences starting_id max_depth graph library = Inr out
      \<longrightarrow> (\<forall>s\<in>set out. distinct s))
   \<and> (generate_all_sequences library graph max_depth = Inr out'
      \<longrightarrow> (\<forall>s\<in>set out'. distinct s))"
  using build_sequences_emits generate_all_sequences_emits emitted_from_distinct
  by blast

lemma scenario_build_sequences:
  "build_sequences 1 2 scenario_graph scenario_library = Inr [[1, 2]]"
  by (simp add: build_sequences_def scenario_graph_def scenario_library_def
        recursive_build_sequences.simps)

lemma scenario_generate_all_sequences:
  "generate_all_sequences scenario_library scenario_graph 2 = Inr [[1, 2]]"
  by (simp add: generate_all_sequences_def build_sequences_def scenario_graph_def
        scenario_library_def recursive_build_sequences.simps)

theorem sequences_pairwise_distinct_witness:
  "build_sequences 1 2 scenario_graph scenario_library = Inr [[1, 2]]
   \<and> generate_all_sequences scenario_library scenario_graph 2 = Inr [[1, 2]]
   \<and> distinct [1, 2 :: int]"
  using sequences_pairwise_distinct
    [of 1 2 scenario_graph scenario_library "[[1, 2]]" "[[1, 2]]"]
    scenario_build_sequences scenario_generate_all_sequences
  by simp

lemma map_of_tabulate:
  "i \<in> set xs \<Longrightarrow> map_of (map (\<lambda>i. (i, f i)) xs) i = Some (f i)"
  by (induction xs) auto

lemma chain_library_lookup:
  assumes "1 \<le> i" "i \<le> n"
  shows "\<exists>m. map_of (chain_library n) i = Some m
           \<and> position m = (if i = n then FINAL else if i = 1 then INITIAL else INTERMEDIARY)"
  using assms unfolding chain_library_def by (simp add: map_of_tabulate)

lemma chain_graph_lookup:
  assumes "1 \<le> i" "i \<le> n"
  shows "map_of (chain_graph n) i = Some [i + 1]"
  using assms unfolding chain_graph_def by (simp add: map_of_tabulate)

lemma chain_rbs:
  "1 \<le> i \<Longrightarrow> i \<le> n \<Longrightarrow>
   recursive_build_sequences i [1..i - 1] dest n (chain_graph n) (chain_library n)
     = (dest @ [[1..n]], None)"
proof (induction "nat (n - i)" arbitrary: i)
  case 0
  then have i: "i = n" by simp
  obtain m where m: "map_of (chain_library n) n = Some m" and f: "position m = FINAL"
    using chain_library_lookup[of n n] "0.prems" i by auto
  have a: "n \<notin> set [1..n - 1]" by simp
  have b: "int (length [1..n - 1]) + 1 \<le> n" using "0.prems" i by simp
  have c: "[1..n - 1] @ [n] = [1..n]" using "0.prems" i by (simp add: upto_rec2)
  show ?case using rbs_final[OF a b m f] c i by simp
next
  case (Suc d)
  then have lt: "i < n" by simp
  obtain m where m: "map_of (chain_library n) i = Some m" and f: "position m \<noteq> FINAL"
    using chain_library_lookup[of i n] Suc.prems lt by auto
  have a: "i \<notin> set [1..i - 1]" by simp
  have b: "int (length [1..i - 1]) + 1 \<le> n" using Suc.prems by simp
  have c: "[1..i - 1] @ [i] = [1..(i + 1) - 1]" using Suc.prems by (simp add: upto_rec2)
  have g: "map_of (chain_graph n) i = Some [i + 1]"
    using chain_graph_lookup Suc.prems by simp
  have d: "d = nat (n - (i + 1))" using Suc.hyps(2) by simp
  have ih: "recursive_build_sequences (i + 1) [1..(i + 1) - 1] dest n (chain_graph n)
      (chain_library n) = (dest @ [[1..n]], None)"
    using Suc.hyps(1)[OF d] Suc.prems lt by simp
  show ?case
    unfolding rbs_descend[OF a b m f g] c using ih by simp
qed

lemma chain_build_sequences:
  assumes "1 \<le> n"
  shows "build_sequences 1 n (chain_graph n) (chain_library n) = Inr [[1..n]]"
  using chain_rbs[of 1 n "[]"] assms by (simp add: build_sequences_def)

lemma build_sequences_nonpositive:
  "k \<le> 0 \<Longrightarrow> build_sequences s k g lib = Inr []"
  by (simp add: build_sequences_def rbs_too_deep)

lemma collect_sequences_skip:
  "\<forall>i\<in>set ks. \<exists>m. map_of lib i = Some m
      \<and> (position m = INITIAL \<longrightarrow> build_sequences i k g lib = Inr []) \<Longrightarrow>
   collect_sequences ks seqs lib g k = Inr seqs"
  by (induction ks) auto

lemma library_key_lookup:
  "i \<in> set (map fst lib) \<Longrightarrow> \<exists>m. map_of lib i = Some m \<and> m \<in> snd ` set lib"
proof -
  assume "i \<in> set (map fst lib)"
  then obtain m where m: "map_of lib i = Some m"
    by (cases "map_of lib i") (auto simp: map_of_eq_None_iff)
  from map_of_SomeD[OF m] have "m \<in> snd ` set lib" by force
  with m show ?thesis by blast
qed

lemma chain_generate_all_sequences:
  assumes "2 \<le> n"
  shows "generate_all_sequences (chain_library n) (chain_graph n) n = Inr [[1..n]]"
proof -
  have keys: "map fst (chain_library n) = 1 # [2..n]"
    using assms by (simp add: chain_library_def comp_def upto_rec1[of 1 n])
  obtain m where m: "map_of (chain_library n) 1 = Some m" and p: "position m = INITIAL"
    using chain_library_lookup[of 1 n] assms by auto
  have rest: "\<forall>i\<in>set [2..n]. \<exists>m. map_of (chain_library n) i = Some m
      \<and> (position m = INITIAL \<longrightarrow>
           build_sequences i n (chain_graph n) (chain_library n) = Inr [])"
  proof
    fix i assume "i \<in> set [2..n]"
    then have "1 \<le> i" "i \<le> n" "i \<noteq> 1" by auto
    with chain_library_lookup[of i n] show "\<exists>m. map_of (chain_library n) i = Some m
      \<and> (position m = INITIAL \<longrightarrow>
           build_sequences i n (chain_graph n) (chain_library n) = Inr [])"
      by (auto split: if_splits)
  qed
  have b: "build_sequences 1 n (chain_graph n) (chain_library n) = Inr [[1..n]]"
    using chain_build_sequences assms by simp
  show ?thesis
    unfolding generate_all_sequences_def keys
    using m p b collect_sequences_skip[OF rest] by simp
qed

text \<open>
  Claim C3. Every sequence produced by \<open>build_sequences\<close> or
  \<open>generate_all_sequences\<close> with depth \<open>max_depth\<close> has at most \<open>max_depth\<close> elements.
  The bound is inclusive: for every depth of at least 1 the chain of that many messages
  is emitted by \<open>build_sequences\<close>, a sequence of exactly \<open>max_depth\<close> elements (and by
  \<open>generate_all_sequences\<close> for every depth of at least 2).
\<close>

theorem depth_bound_inclusive:
  "(build_sequences starting_id max_depth graph library = Inr out
      \<longrightarrow> (\<forall>s\<in>set out. int (length s) \<le> max_depth))
   \<and> (generate_all_sequences library graph max_depth = Inr out'
      \<longrightarrow> (\<forall>s\<in>set out'. int (length s) \<le> max_depth))
   \<and> (1 \<le> max_depth \<longrightarrow>
        build_sequences 1 max_depth (chain_graph max_depth) (chain_library max_depth)
          = Inr [[1..max_depth]]
        \<and> int (length [1..max_depth]) = max_depth)
   \<and> (2 \<le> max_depth \<longrightarrow>
        generate_all_sequences (chain_library max_depth) (chain_graph max_depth) max_depth
          = Inr [[1..max_depth]])"
proof (intro conjI impI ballI)
  fix s assume "build_sequences starting_id max_depth graph library = Inr out" "s \<in> set out"
  then show "int (length s) \<le> max_depth"
    using build_sequences_emits emitted_from_length by blast
next
  fix s assume "generate_all_sequences library graph max_depth = Inr out'" "s \<in> set out'"
  then show "int (length s) \<le> max_depth"
    using generate_all_sequences_emits emitted_from_length by blast
next
  assume "1 \<le> max_depth"
  then show "build_sequences 1 max_depth (chain_graph max_depth) (chain_library max_depth)
      = Inr [[1..max_depth]]"
    by (rule chain_build_sequences)
next
  assume "1 \<le> max_depth"
  then show "int (length [1..max_depth]) = max_depth" by simp
next
  assume "2 \<le> max_depth"
  then show "generate_all_sequences (chain_library max_depth) (chain_graph max_depth) max_depth
      = Inr [[1..max_depth]]"
    by (rule chain_generate_all_sequences)
qed

theorem depth_bound_inclusive_witness:
  "build_sequences 1 2 scenario_graph scenario_library = Inr [[1, 2]]
   \<and> generate_all_sequences scenario_library scenario_graph 2 = Inr [[1, 2]]
   \<and> int (length [1, 2 :: int]) \<le> 2
   \<and> build_sequences 1 2 (chain_graph 2) (chain_library 2) = Inr [[1..2]]
   \<and> generate_all_sequences (chain_library 2) (chain_graph 2) 2 = Inr [[1..2]]"
  using depth_bound_inclusive
    [of 1 2 scenario_graph scenario_library "[[1, 2]]" "[[1, 2]]"]
    scenario_build_sequences scenario_generate_all_sequences
  by simp

text \<open>
  Claim C4. Every sequence produced by \<open>generate_all_sequences\<close> is non-empty, its
  first element is the id of an INITIAL message and its last the id of a FINAL message,
  and no element before the last is FINAL. A FINAL message is a leaf whatever the graph
  records: a call on it past both guards emits the extended accumulation and returns,
  for every graph.
\<close>

theorem sequences_start_initial_end_final:
  "(generate_all_sequences library graph max_depth = Inr out
      \<longrightarrow> (\<forall>s\<in>set out. s \<noteq> []
             \<and> has_position library (hd s) INITIAL
             \<and> has_position library (last s) FINAL
             \<and> (\<forall>y\<in>set (butlast s). \<not> has_position library y FINAL)))
   \<and> (starting_id \<notin> set accumulated \<and> int (length accumulated) + 1 \<le> max_depth
        \<and> has_position library starting_id FINAL
      \<longrightarrow> recursive_build_sequences starting_id accumulated dest max_depth graph library
            = (dest @ [accumulated @ [starting_id]], None))"
proof (rule conjI)
  show "generate_all_sequences library graph max_depth = Inr out
      \<longrightarrow> (\<forall>s\<in>set out. s \<noteq> []
             \<and> has_position library (hd s) INITIAL
             \<and> has_position library (last s) FINAL
             \<and> (\<forall>y\<in>set (butlast s). \<not> has_position library y FINAL))"
  proof (intro impI ballI)
    fix s assume "generate_all_sequences library graph max_depth = Inr out" "s \<in> set out"
    then obtain i where i: "has_position library i INITIAL"
      and e: "emitted_from library max_depth [] i s"
      using generate_all_sequences_emits by blast
    from emitted_from_shape[OF e] i
    show "s \<noteq> [] \<and> has_position library (hd s) INITIAL
        \<and> has_position library (last s) FINAL
        \<and> (\<forall>y\<in>set (butlast s). \<not> has_position library y FINAL)"
      by simp
  qed
next
  show "starting_id \<notin> set accumulated \<and> int (length accumulated) + 1 \<le> max_depth
        \<and> has_position library starting_id FINAL
      \<longrightarrow> recursive_build_sequences starting_id accumulated dest max_depth graph library
            = (dest @ [accumulated @ [starting_id]], None)"
  proof
    assume a: "starting_id \<notin> set accumulated \<and> int (length accumulated) + 1 \<le> max_depth
        \<and> has_position library starting_id FINAL"
    then obtain m where "map_of library starting_id = Some m" "position m = FINAL"
      by (auto simp: has_position_def split: option.splits)
    with a show "recursive_build_sequences starting_id accumulated dest max_depth graph library
            = (dest @ [accumulated @ [starting_id]], None)"
      by (simp add: rbs_final)
  qed
qed

lemma leafy_generate_all_sequences:
  "generate_all_sequences scenario_library leafy_graph 3 = Inr [[1, 2]]"
  by (simp add: generate_all_sequences_def build_sequences_def leafy_graph_def
        scenario_library_def recursive_build_sequences.simps)

theorem sequences_start_initial_end_final_witness:
  "generate_all_sequences scenario_library leafy_graph 3 = Inr [[1, 2]]
   \<and> map_of leafy_graph 2 = Some [1, 3]
   \<and> has_position scenario_library 1 INITIAL
   \<and> has_position scenario_library 2 FINAL
   \<and> recursive_build_sequences 2 [1] [] 3 leafy_graph scenario_library = ([[1, 2]], None)"
  using sequences_start_initial_end_final
    [of scenario_library leafy_graph 3 "[[1, 2]]" 2 "[1]" "[]"]
    leafy_generate_all_sequences
  by (simp add: has_position_def scenario_library_def leafy_graph_def)

text \<open>
  Claim C8. \<open>generate_all_sequences\<close> returns the empty list, and raises nothing, when
  \<open>max_depth\<close> is at most 0, when the library is empty, and when no message of the
  library is INITIAL, for every graph and depth; \<open>build_sequences\<close> returns the empty
  list for every start id when \<open>max_depth\<close> is at most 0.
\<close>

theorem degenerate_inputs_yield_nothing:
  "(max_depth \<le> 0 \<longrightarrow> generate_all_sequences library graph max_depth = Inr [])
   \<and> generate_all_sequences [] graph max_depth = Inr []
   \<and> ((\<forall>m\<in>snd ` set library. position m \<noteq> INITIAL)
        \<longrightarrow> generate_all_sequences library graph max_depth = Inr [])
   \<and> (max_depth \<le> 0 \<longrightarrow> build_sequences starting_id max_depth graph library = Inr [])"
proof (intro conjI impI)
  assume k: "max_depth \<le> 0"
  have "\<forall>i\<in>set (map fst library). \<exists>m. map_of library i = Some m
      \<and> (position m = INITIAL \<longrightarrow> build_sequences i max_depth graph library = Inr [])"
  proof
    fix i assume "i \<in> set (map fst library)"
    from library_key_lookup[OF this] obtain m where "map_of library i = Some m" by blast
    then show "\<exists>m. map_of library i = Some m
      \<and> (position m = INITIAL \<longrightarrow> build_sequences i max_depth graph library = Inr [])"
      using build_sequences_nonpositive[OF k] by simp
  qed
  then show "generate_all_sequences library graph max_depth = Inr []"
    unfolding generate_all_sequences_def by (rule collect_sequences_skip)
next
  show "generate_all_sequences [] graph max_depth = Inr []"
    by (simp add: generate_all_sequences_def)
next
  assume n: "\<forall>m\<in>snd ` set library. position m \<noteq> INITIAL"
  have "\<forall>i\<in>set (map fst library). \<exists>m. map_of library i = Some m
      \<and> (position m = INITIAL \<longrightarrow> build_sequences i max_depth graph library = Inr [])"
  proof
    fix i assume "i \<in> set (map fst library)"
    from library_key_lookup[OF this] obtain m
      where "map_of library i = Some m" "m \<in> snd ` set library" by blast
    then show "\<exists>m. map_of library i = Some m
      \<and> (position m = INITIAL \<longrightarrow> build_sequences i max_depth graph library = Inr [])"
      using n by auto
  qed
  then show "generate_all_sequences library graph max_depth = Inr []"
    unfolding generate_all_sequences_def by (rule collect_sequences_skip)
next
  assume "max_depth \<le> 0"
  then show "build_sequences starting_id max_depth graph library = Inr []"
    by (rule build_sequences_nonpositive)
qed

theorem degenerate_inputs_yield_nothing_witness:
  "generate_all_sequences scenario_library scenario_graph 0 = Inr []
   \<and> generate_all_sequences [] scenario_graph 2 = Inr []
   \<and> generate_all_sequences (filter (\<lambda>e. fst e = 2) scenario_library) leafy_graph 5 = Inr []
   \<and> build_sequences 7 (- 1) scenario_graph scenario_library = Inr []"
  using degenerate_inputs_yield_nothing [of 0 scenario_library scenario_graph 1]
    degenerate_inputs_yield_nothing [of 2 scenario_library scenario_graph 1]
    degenerate_inputs_yield_nothing
      [of 5 "filter (\<lambda>e. fst e = 2) scenario_library" leafy_graph 1]
    degenerate_inputs_yield_nothing [of "- 1" scenario_library scenario_graph 7]
  by (simp add: scenario_library_def)

section \<open>Properties of the pair filter\<close>

lemma list_index_first:
  "a \<in> set s \<Longrightarrow>
   \<exists>i. list_index s a = Inr i \<and> i < length s \<and> s ! i = a \<and> (\<forall>i'<i. s ! i' \<noteq> a)"
proof (induction s)
  case Nil
  then show ?case by simp
next
  case (Cons x xs)
  show ?case
  proof (cases "x = a")
    case True
    then show ?thesis by simp
  next
    case False
    with Cons.prems have "a \<in> set xs" by simp
    from Cons.IH[OF this] obtain i where i: "list_index xs a = Inr i" "i < length xs"
      "xs ! i = a" "\<forall>i'<i. xs ! i' \<noteq> a" by blast
    have "\<forall>i'<Suc i. (x # xs) ! i' \<noteq> a"
    proof (intro allI impI)
      fix i' assume "i' < Suc i"
      then show "(x # xs) ! i' \<noteq> a" using False i(4) by (cases i') auto
    qed
    with False i show ?thesis by simp
  qed
qed

lemma first_occurrence_unique:
  assumes "s ! i = a" "\<forall>i'<i. s ! i' \<noteq> a" "s ! j = a" "\<forall>j'<j. s ! j' \<noteq> a"
  shows "i = (j::nat)"
proof (rule ccontr)
  assume "i \<noteq> j"
  then consider "i < j" | "j < i" by linarith
  then show False using assms by cases auto
qed

text \<open>
  Claim C6. \<open>pair_filter s a b\<close> never raises, and it returns true exactly when neither
  \<open>a\<close> nor \<open>b\<close> occurs in \<open>s\<close>, or both occur and the first occurrence of \<open>a\<close> is
  immediately followed by the first occurrence of \<open>b\<close>. When exactly one of them occurs
  it returns false.
\<close>

theorem pair_filter_truth_table:
  "pair_filter s a b =
     Inr ((a \<notin> set s \<and> b \<notin> set s)
          \<or> (\<exists>i j. i < length s \<and> s ! i = a \<and> (\<forall>i'<i. s ! i' \<noteq> a)
                 \<and> j < length s \<and> s ! j = b \<and> (\<forall>j'<j. s ! j' \<noteq> b)
                 \<and> i + 1 = j))
   \<and> ((a \<in> set s) \<noteq> (b \<in> set s) \<longrightarrow> pair_filter s a b = Inr False)"
proof (cases "a \<in> set s \<and> b \<in> set s")
  case True
  then obtain i j where i: "list_index s a = Inr i" "i < length s" "s ! i = a"
      "\<forall>i'<i. s ! i' \<noteq> a"
    and j: "list_index s b = Inr j" "j < length s" "s ! j = b" "\<forall>j'<j. s ! j' \<noteq> b"
    using list_index_first[of a s] list_index_first[of b s] by blast
  have pf: "pair_filter s a b = Inr (i + 1 = j)"
    using True i(1) j(1) by (simp add: pair_filter_def)
  have "(i + 1 = j) \<longleftrightarrow>
      (\<exists>i j. i < length s \<and> s ! i = a \<and> (\<forall>i'<i. s ! i' \<noteq> a)
                 \<and> j < length s \<and> s ! j = b \<and> (\<forall>j'<j. s ! j' \<noteq> b)
                 \<and> i + 1 = j)" (is "?l \<longleftrightarrow> ?r")
  proof
    assume ?l
    with i j show ?r by blast
  next
    assume ?r
    then obtain i2 j2 where 2: "s ! i2 = a" "\<forall>i'<i2. s ! i' \<noteq> a"
      "s ! j2 = b" "\<forall>j'<j2. s ! j' \<noteq> b" "i2 + 1 = j2" by blast
    have "i2 = i" using first_occurrence_unique[OF 2(1,2) i(3,4)] .
    moreover have "j2 = j" using first_occurrence_unique[OF 2(3,4) j(3,4)] .
    ultimately show ?l using 2(5) by simp
  qed
  with pf True show ?thesis by simp
next
  case False
  have no: "\<not> (\<exists>i j. i < length s \<and> s ! i = a \<and> (\<forall>i'<i. s ! i' \<noteq> a)
                 \<and> j < length s \<and> s ! j = b \<and> (\<forall>j'<j. s ! j' \<noteq> b)
                 \<and> i + 1 = j)"
    using False nth_mem by blast
  show ?thesis using False no by (auto simp: pair_filter_def)
qed

theorem pair_filter_truth_table_witness:
  "pair_filter [1, 2, 3] 1 2 = Inr True
   \<and> pair_filter [1, 2, 3] 2 1 = Inr False
   \<and> pair_filter [1, 2, 3] 1 3 = Inr False
   \<and> pair_filter [1, 2, 3] 1 4 = Inr False
   \<and> pair_filter [1, 2, 3] 5 4 = Inr True"
proof -
  have "pair_filter [1, 2, 3] 1 4 = Inr False"
    using conjunct2 [OF pair_filter_truth_table [of "[1, 2, 3]" 1 4]] by simp
  then show ?thesis by (simp add: pair_filter_def)
qed

text \<open>
  Claim C10. Queried with the same id twice, \<open>pair_filter s a a\<close> returns false whenever
  \<open>a\<close> occurs in \<open>s\<close> and true whenever it does not.
\<close>

theorem pair_filter_same_id:
  "pair_filter s a a = Inr (a \<notin> set s)"
proof (cases "a \<in> set s")
  case True
  then obtain i where "list_index s a = Inr i" using list_index_first by blast
  with True show ?thesis by (simp add: pair_filter_def)
next
  case False
  then show ?thesis by (simp add: pair_filter_def)
qed

theorem pair_filter_same_id_witness:
  "pair_filter [1, 2, 3] 2 2 = Inr False \<and> pair_filter [1, 2, 3] 4 4 = Inr True"
  using pair_filter_same_id [of "[1, 2, 3]" 2] pair_filter_same_id [of "[1, 2, 3]" 4]
  by simp

section \<open>Properties of the sequence projector\<close>

lemma keep_whitelisted_filter:
  "keep_whitelisted s w acc = acc @ filter (\<lambda>i. i \<in> w) s"
  by (induction s arbitrary: acc) auto

lemma set_dedup_first: "set (dedup_first xs) = set xs"
  by (induction xs rule: dedup_first.induct) auto

lemma distinct_dedup_first: "distinct (dedup_first xs)"
  by (induction xs rule: dedup_first.induct) (auto simp: set_dedup_first)

lemma project_loop_dedup:
  "project_loop seqs w acc =
     acc @ dedup_first (filter (\<lambda>s. s \<notin> set acc)
             (filter (\<lambda>s. \<not> length s < 2) (map (filter (\<lambda>i. i \<in> w)) seqs)))"
proof (induction seqs arbitrary: acc)
  case Nil
  then show ?case by simp
next
  case (Cons s seqs)
  define ns where "ns = filter (\<lambda>i. i \<in> w) s"
  define cand where
    "cand = filter (\<lambda>s. \<not> length s < 2) (map (filter (\<lambda>i. i \<in> w)) seqs)"
  have kw: "keep_whitelisted s w [] = ns" by (simp add: keep_whitelisted_filter ns_def)
  show ?case
  proof (cases "length ns > 1 \<and> ns \<notin> set acc")
    case True
    have f: "filter (\<lambda>s. s \<notin> set (acc @ [ns])) cand
        = filter (\<lambda>y. y \<noteq> ns) (filter (\<lambda>s. s \<notin> set acc) cand)"
      by (auto intro: filter_cong)
    have "project_loop (s # seqs) w acc = project_loop seqs w (acc @ [ns])"
      using True kw by simp
    also have "\<dots> = (acc @ [ns]) @ dedup_first (filter (\<lambda>s. s \<notin> set (acc @ [ns])) cand)"
      unfolding cand_def by (rule Cons.IH)
    also have "\<dots> = acc @ dedup_first (filter (\<lambda>s. s \<notin> set acc) (ns # cand))"
      using True f by simp
    also have "ns # cand
        = filter (\<lambda>s. \<not> length s < 2) (map (filter (\<lambda>i. i \<in> w)) (s # seqs))"
      using True by (simp add: cand_def ns_def)
    finally show ?thesis .
  next
    case False
    have "project_loop (s # seqs) w acc = project_loop seqs w acc"
      using False kw by auto
    also have "\<dots> = acc @ dedup_first (filter (\<lambda>s. s \<notin> set acc) cand)"
      unfolding cand_def by (rule Cons.IH)
    also have "filter (\<lambda>s. s \<notin> set acc) cand
        = filter (\<lambda>s. s \<notin> set acc)
            (filter (\<lambda>s. \<not> length s < 2) (map (filter (\<lambda>i. i \<in> w)) (s # seqs)))"
      using False by (auto simp: cand_def ns_def)
    finally show ?thesis .
  qed
qed

lemma project_sequences_refines:
  "project_sequences sequences whitelist = project_spec sequences whitelist"
  by (simp add: project_sequences_def project_spec_def project_loop_dedup)

text \<open>
  Claim C5. \<open>project_sequences\<close> computes what the specification describes: each
  sequence is replaced by the sub-sequence of its elements in the whitelist, in their
  order; results with fewer than two elements are discarded; of equal results the first
  is kept; the output is sorted by length, and results of one length keep the order of
  their first appearance. The output has no duplicates, and its members are exactly the
  projections with at least two elements. The function reads nothing but its arguments.
\<close>

theorem project_sequences_meets_spec:
  "project_sequences sequences whitelist = project_spec sequences whitelist
   \<and> sorted (map length (project_sequences sequences whitelist))
   \<and> (\<forall>n. filter (\<lambda>s. length s = n) (project_sequences sequences whitelist)
           = filter (\<lambda>s. length s = n)
               (dedup_first (filter (\<lambda>s. \<not> length s < 2)
                  (map (filter (\<lambda>i. i \<in> whitelist)) sequences))))
   \<and> distinct (project_sequences sequences whitelist)
   \<and> set (project_sequences sequences whitelist)
       = {t. \<not> length t < 2 \<and> t \<in> (\<lambda>s. filter (\<lambda>i. i \<in> whitelist) s) ` set sequences}"
proof -
  have r: "project_sequences sequences whitelist = project_spec sequences whitelist"
    by (rule project_sequences_refines)
  have a: "sorted (map length (project_spec sequences whitelist))"
    unfolding project_spec_def by (rule sorted_sort_key)
  have b: "\<forall>n. filter (\<lambda>s. length s = n) (project_spec sequences whitelist)
           = filter (\<lambda>s. length s = n)
               (dedup_first (filter (\<lambda>s. \<not> length s < 2)
                  (map (filter (\<lambda>i. i \<in> whitelist)) sequences)))"
    unfolding project_spec_def by (simp add: sort_key_stable)
  have c: "distinct (project_spec sequences whitelist)"
    unfolding project_spec_def by (simp add: distinct_dedup_first)
  have d: "set (project_spec sequences whitelist)
       = {t. \<not> length t < 2 \<and> t \<in> (\<lambda>s. filter (\<lambda>i. i \<in> whitelist) s) ` set sequences}"
    unfolding project_spec_def by (auto simp: set_dedup_first)
  show ?thesis unfolding r using a b c d by blast
qed

lemma project_sequences_example:
  "project_sequences [[1, 2, 3], [4, 1, 2], [1, 2, 3, 4], [5], [2, 1]] {1, 2, 3}
     = [[1, 2], [2, 1], [1, 2, 3]]"
  by (simp add: project_sequences_def)

theorem project_sequences_meets_spec_witness:
  "project_sequences [[1, 2, 3], [4, 1, 2], [1, 2, 3, 4], [5], [2, 1]] {1, 2, 3}
     = [[1, 2], [2, 1], [1, 2, 3]]"
  using project_sequences_meets_spec
    [of "[[1, 2, 3], [4, 1, 2], [1, 2, 3, 4], [5], [2, 1]]" "{1, 2, 3}"]
  by (simp add: project_spec_def)

section \<open>Properties of the graph builder\<close>

lemma set_set_add: "set (set_add s x) = insert x (set s)"
  by (auto simp: set_add_def)

lemma set_add_present: "x \<in> set s \<Longrightarrow> set_add s x = s"
  by (simp add: set_add_def)

lemma map_of_contents:
  "map_of (contents g) a = map_option (objects g) (map_of (slots g) a)"
  unfolding contents_def by (induction "slots g" arbitrary: g) (auto simp: map_of_map)

lemma successors_contents:
  "map_of (slots g) a = Some r \<Longrightarrow> successors (contents g) a = set (objects g r)"
  by (simp add: successors_def map_of_contents)

lemma relate_to_adds:
  assumes "map_of lib a = Some ma"
    and "\<forall>b\<in>set bs. map_of lib b \<noteq> None"
    and "map_of refs a = Some r"
  shows "\<exists>h'. relate_to a bs refs h lib = (h', None)
           \<and> (\<forall>x. x \<noteq> r \<longrightarrow> h' x = h x)
           \<and> set (h' r)
               = set (h r) \<union> {b \<in> set bs. \<exists>mb. map_of lib b = Some mb \<and> causal ma mb}"
  using assms(2)
proof (induction bs arbitrary: h)
  case Nil
  then show ?case by simp
next
  case (Cons b bs)
  from Cons.prems obtain mb where mb: "map_of lib b = Some mb" by auto
  have rest: "\<forall>b\<in>set bs. map_of lib b \<noteq> None" using Cons.prems by simp
  show ?case
  proof (cases "causal ma mb")
    case True
    let ?h1 = "h(r := set_add (h r) b)"
    from Cons.IH[OF rest, of ?h1] obtain h' where
      r: "relate_to a bs refs ?h1 lib = (h', None)"
      and o: "\<forall>x. x \<noteq> r \<longrightarrow> h' x = ?h1 x"
      and u: "set (h' r)
          = set (?h1 r) \<union> {b \<in> set bs. \<exists>mb. map_of lib b = Some mb \<and> causal ma mb}"
      by blast
    have "relate_to a (b # bs) refs h lib = (h', None)"
      using assms(1,3) mb True r by simp
    moreover have "\<forall>x. x \<noteq> r \<longrightarrow> h' x = h x" using o by simp
    moreover have "set (h' r)
        = set (h r) \<union> {c \<in> set (b # bs). \<exists>mb. map_of lib c = Some mb \<and> causal ma mb}"
      using u mb True by (auto simp: set_set_add)
    ultimately show ?thesis by blast
  next
    case False
    from Cons.IH[OF rest, of h] obtain h' where
      r: "relate_to a bs refs h lib = (h', None)"
      and o: "\<forall>x. x \<noteq> r \<longrightarrow> h' x = h x"
      and u: "set (h' r)
          = set (h r) \<union> {b \<in> set bs. \<exists>mb. map_of lib b = Some mb \<and> causal ma mb}"
      by blast
    have "relate_to a (b # bs) refs h lib = (h', None)"
      using assms(1) mb False r by simp
    moreover have "set (h' r)
        = set (h r) \<union> {c \<in> set (b # bs). \<exists>mb. map_of lib c = Some mb \<and> causal ma mb}"
      using u mb False by auto
    ultimately show ?thesis using o by blast
  qed
qed

lemma relate_all_adds:
  assumes "\<forall>a\<in>set as. map_of lib a \<noteq> None \<and> map_of refs a \<noteq> None"
    and "\<forall>b\<in>set keys. map_of lib b \<noteq> None"
  shows "\<exists>h'. relate_all as keys refs h lib = (h', None)
           \<and> (\<forall>x. set (h' x) = set (h x)
                 \<union> {b \<in> set keys. \<exists>a\<in>set as. \<exists>ma mb. map_of refs a = Some x
                       \<and> map_of lib a = Some ma \<and> map_of lib b = Some mb \<and> causal ma mb})"
  using assms(1)
proof (induction as arbitrary: h)
  case Nil
  then show ?case by simp
next
  case (Cons a as)
  from Cons.prems obtain ma r where ma: "map_of lib a = Some ma"
    and r: "map_of refs a = Some r" by auto
  have pre: "\<forall>a\<in>set as. map_of lib a \<noteq> None \<and> map_of refs a \<noteq> None"
    using Cons.prems by simp
  from relate_to_adds[OF ma assms(2) r, of h] obtain h1 where
    r1: "relate_to a keys refs h lib = (h1, None)"
    and o1: "\<forall>x. x \<noteq> r \<longrightarrow> h1 x = h x"
    and u1: "set (h1 r)
        = set (h r) \<union> {b \<in> set keys. \<exists>mb. map_of lib b = Some mb \<and> causal ma mb}"
    by blast
  from Cons.IH[OF pre, of h1] obtain h' where
    r2: "relate_all as keys refs h1 lib = (h', None)"
    and u: "\<forall>x. set (h' x) = set (h1 x)
                 \<union> {b \<in> set keys. \<exists>a\<in>set as. \<exists>ma mb. map_of refs a = Some x
                       \<and> map_of lib a = Some ma \<and> map_of lib b = Some mb \<and> causal ma mb}"
    by blast
  have "relate_all (a # as) keys refs h lib = (h', None)" using r1 r2 by simp
  moreover have "\<forall>x. set (h' x) = set (h x)
                 \<union> {b \<in> set keys. \<exists>a'\<in>set (a # as). \<exists>ma mb. map_of refs a' = Some x
                       \<and> map_of lib a' = Some ma \<and> map_of lib b = Some mb \<and> causal ma mb}"
  proof
    fix x
    show "set (h' x) = set (h x)
                 \<union> {b \<in> set keys. \<exists>a'\<in>set (a # as). \<exists>ma mb. map_of refs a' = Some x
                       \<and> map_of lib a' = Some ma \<and> map_of lib b = Some mb \<and> causal ma mb}"
    proof (cases "x = r")
      case True
      have "set (h' r) = (set (h r)
            \<union> {b \<in> set keys. \<exists>mb. map_of lib b = Some mb \<and> causal ma mb})
          \<union> {b \<in> set keys. \<exists>a\<in>set as. \<exists>ma mb. map_of refs a = Some r
                \<and> map_of lib a = Some ma \<and> map_of lib b = Some mb \<and> causal ma mb}"
        using u u1 by simp
      also have "\<dots> = set (h r)
          \<union> {b \<in> set keys. \<exists>a'\<in>set (a # as). \<exists>ma mb. map_of refs a' = Some r
                \<and> map_of lib a' = Some ma \<and> map_of lib b = Some mb \<and> causal ma mb}"
        using ma r by auto
      finally show ?thesis using True by simp
    next
      case False
      have "set (h' x) = set (h x)
          \<union> {b \<in> set keys. \<exists>a\<in>set as. \<exists>ma mb. map_of refs a = Some x
                \<and> map_of lib a = Some ma \<and> map_of lib b = Some mb \<and> causal ma mb}"
        using u o1 False by simp
      also have "\<dots> = set (h x)
          \<union> {b \<in> set keys. \<exists>a'\<in>set (a # as). \<exists>ma mb. map_of refs a' = Some x
                \<and> map_of lib a' = Some ma \<and> map_of lib b = Some mb \<and> causal ma mb}"
        using r False by auto
      finally show ?thesis .
    qed
  qed
  ultimately show ?case by blast
qed

lemma relate_to_closed:
  assumes "map_of lib a = Some ma"
    and "\<forall>b\<in>set bs. \<exists>mb. map_of lib b = Some mb
          \<and> (causal ma mb \<longrightarrow> (\<exists>r. map_of refs a = Some r \<and> b \<in> set (h r)))"
  shows "relate_to a bs refs h lib = (h, None)"
  using assms(2)
proof (induction bs)
  case Nil
  then show ?case by simp
next
  case (Cons b bs)
  then obtain mb where mb: "map_of lib b = Some mb"
    and c: "causal ma mb \<longrightarrow> (\<exists>r. map_of refs a = Some r \<and> b \<in> set (h r))" by auto
  have ih: "relate_to a bs refs h lib = (h, None)" using Cons by simp
  show ?case
  proof (cases "causal ma mb")
    case True
    with c obtain r where r: "map_of refs a = Some r" and b: "b \<in> set (h r)" by blast
    have "h(r := set_add (h r) b) = h" using set_add_present[OF b] by simp
    then show ?thesis using assms(1) mb True r ih by simp
  next
    case False
    then show ?thesis using assms(1) mb ih by simp
  qed
qed

lemma relate_all_closed:
  assumes "\<forall>a\<in>set as. \<exists>ma. map_of lib a = Some ma
      \<and> (\<forall>b\<in>set keys. \<exists>mb. map_of lib b = Some mb
            \<and> (causal ma mb \<longrightarrow> (\<exists>r. map_of refs a = Some r \<and> b \<in> set (h r))))"
  shows "relate_all as keys refs h lib = (h, None)"
  using assms
proof (induction as)
  case Nil
  then show ?case by simp
next
  case (Cons a as)
  then obtain ma where ma: "map_of lib a = Some ma"
    and cl: "\<forall>b\<in>set keys. \<exists>mb. map_of lib b = Some mb
            \<and> (causal ma mb \<longrightarrow> (\<exists>r. map_of refs a = Some r \<and> b \<in> set (h r)))" by auto
  have "relate_to a keys refs h lib = (h, None)" by (rule relate_to_closed[OF ma cl])
  moreover have "relate_all as keys refs h lib = (h, None)" using Cons by simp
  ultimately show ?case by simp
qed

text \<open>
  The claim as stated fails when keys share a set object, as in
  \<open>dict.fromkeys([1, 2, 3], set())\<close>: the only edge the scenario causes, from 1 to 2,
  is added to the one set all three keys hold, so 2 becomes a successor of 2, although
  it was not one before and no message causes itself.
\<close>

theorem build_relationships_shared_set_counterexample:
  "snd (build_relationships shared_skeleton scenario_library) = None
   \<and> contents shared_skeleton = [(1, []), (2, []), (3, [])]
   \<and> contents (fst (build_relationships shared_skeleton scenario_library))
       = [(1, [2]), (2, [2]), (3, [2])]
   \<and> 2 \<in> successors (contents (fst (build_relationships shared_skeleton scenario_library))) 2
   \<and> 2 \<notin> successors (contents shared_skeleton) 2
   \<and> map_of scenario_library 2
       = Some \<lparr>id_msg = 2, origin = ''Y'', destination = ''X'', operation = ''login-ack'',
               direction = RESP, position = FINAL\<rparr>
   \<and> \<not> causal
       \<lparr>id_msg = 2, origin = ''Y'', destination = ''X'', operation = ''login-ack'',
        direction = RESP, position = FINAL\<rparr>
       \<lparr>id_msg = 2, origin = ''Y'', destination = ''X'', operation = ''login-ack'',
        direction = RESP, position = FINAL\<rparr>"
  by (simp add: build_relationships_def shared_skeleton_def scenario_library_def
        contents_def successors_def causal_def set_add_def)

text \<open>
  Claim C7, amended. When every key of the graph is a key of the library,
  \<open>build_relationships\<close> raises nothing, keeps the dictionary, and a second run on the
  graph it produced changes nothing, also when keys share a set object. After the run,
  for keys \<open>a\<close> and \<open>b\<close> of the graph, \<open>b\<close> is a successor of \<open>a\<close> exactly when it was
  one before or the message of some key that holds the same set object as \<open>a\<close> causes
  the message of \<open>b\<close>. When no two keys hold the same set object, that is: exactly when
  \<open>causal\<close> holds of the messages of \<open>a\<close> and \<open>b\<close>, or \<open>b\<close> was a successor of \<open>a\<close> before.
\<close>

theorem build_relationships_idempotent_sharing:
  assumes "\<forall>k\<in>set (map fst (slots graph)). map_of library k \<noteq> None"
  shows "\<exists>graph'. build_relationships graph library = (graph', None)
           \<and> build_relationships graph' library = (graph', None)
           \<and> slots graph' = slots graph
           \<and> (\<forall>a b mb. a \<in> set (map fst (slots graph)) \<and> b \<in> set (map fst (slots graph))
                  \<and> map_of library b = Some mb
                \<longrightarrow> (b \<in> successors (contents graph') a \<longleftrightarrow>
                       b \<in> successors (contents graph) a
                       \<or> (\<exists>a'\<in>set (map fst (slots graph)). \<exists>ma'.
                             map_of (slots graph) a' = map_of (slots graph) a
                             \<and> map_of library a' = Some ma' \<and> causal ma' mb)))
           \<and> ((\<forall>a\<in>set (map fst (slots graph)). \<forall>a'\<in>set (map fst (slots graph)).
                   map_of (slots graph) a = map_of (slots graph) a' \<longrightarrow> a = a')
                \<longrightarrow> (\<forall>a b ma mb. a \<in> set (map fst (slots graph))
                        \<and> b \<in> set (map fst (slots graph))
                        \<and> map_of library a = Some ma \<and> map_of library b = Some mb
                      \<longrightarrow> (b \<in> successors (contents graph') a \<longleftrightarrow>
                             causal ma mb \<or> b \<in> successors (contents graph) a)))"
proof -
  let ?keys = "map fst (slots graph)"
  let ?refs = "slots graph"
  have pre: "\<forall>a\<in>set ?keys. map_of library a \<noteq> None \<and> map_of ?refs a \<noteq> None"
    using assms by (simp add: map_of_eq_None_iff)
  from relate_all_adds[OF pre assms, of "objects graph"] obtain h' where
    r: "relate_all ?keys ?keys ?refs (objects graph) library = (h', None)"
    and u: "\<forall>x. set (h' x) = set (objects graph x)
                 \<union> {b \<in> set ?keys. \<exists>a\<in>set ?keys. \<exists>ma mb. map_of ?refs a = Some x
                       \<and> map_of library a = Some ma \<and> map_of library b = Some mb
                       \<and> causal ma mb}"
    by blast
  define g' where "g' = graph\<lparr>objects := h'\<rparr>"
  have sl: "slots g' = slots graph" and ob: "objects g' = h'" by (simp_all add: g'_def)
  have first: "build_relationships graph library = (g', None)"
    using r by (simp add: build_relationships_def g'_def)
  have rel: "\<forall>a b mb. a \<in> set ?keys \<and> b \<in> set ?keys \<and> map_of library b = Some mb
                \<longrightarrow> (b \<in> successors (contents g') a \<longleftrightarrow>
                       b \<in> successors (contents graph) a
                       \<or> (\<exists>a'\<in>set ?keys. \<exists>ma'. map_of ?refs a' = map_of ?refs a
                             \<and> map_of library a' = Some ma' \<and> causal ma' mb))"
  proof (intro allI impI)
    fix a b mb
    assume h: "a \<in> set ?keys \<and> b \<in> set ?keys \<and> map_of library b = Some mb"
    with pre obtain x where x: "map_of ?refs a = Some x" by auto
    have s': "successors (contents g') a = set (h' x)"
      using successors_contents[of g' a x] x sl ob by simp
    have s0: "successors (contents graph) a = set (objects graph x)"
      using successors_contents[OF x] .
    have "b \<in> set (h' x) \<longleftrightarrow> b \<in> set (objects graph x)
        \<or> (\<exists>a'\<in>set ?keys. \<exists>ma'. map_of ?refs a' = Some x
              \<and> map_of library a' = Some ma' \<and> causal ma' mb)"
      using u h by auto
    then show "b \<in> successors (contents g') a \<longleftrightarrow>
                       b \<in> successors (contents graph) a
                       \<or> (\<exists>a'\<in>set ?keys. \<exists>ma'. map_of ?refs a' = map_of ?refs a
                             \<and> map_of library a' = Some ma' \<and> causal ma' mb)"
      unfolding s' s0 x .
  qed
  have closed: "\<forall>a\<in>set ?keys. \<exists>ma. map_of library a = Some ma
      \<and> (\<forall>b\<in>set ?keys. \<exists>mb. map_of library b = Some mb
            \<and> (causal ma mb \<longrightarrow> (\<exists>x. map_of ?refs a = Some x \<and> b \<in> set (h' x))))"
  proof
    fix a assume a: "a \<in> set ?keys"
    with pre obtain ma x where ma: "map_of library a = Some ma"
      and x: "map_of ?refs a = Some x" by auto
    have "\<forall>b\<in>set ?keys. \<exists>mb. map_of library b = Some mb
            \<and> (causal ma mb \<longrightarrow> (\<exists>x. map_of ?refs a = Some x \<and> b \<in> set (h' x)))"
    proof
      fix b assume b: "b \<in> set ?keys"
      with assms obtain mb where mb: "map_of library b = Some mb" by auto
      have "causal ma mb \<longrightarrow> b \<in> set (h' x)"
        using u a b ma mb x by auto
      with mb x show "\<exists>mb. map_of library b = Some mb
            \<and> (causal ma mb \<longrightarrow> (\<exists>x. map_of ?refs a = Some x \<and> b \<in> set (h' x)))" by blast
    qed
    with ma show "\<exists>ma. map_of library a = Some ma
      \<and> (\<forall>b\<in>set ?keys. \<exists>mb. map_of library b = Some mb
            \<and> (causal ma mb \<longrightarrow> (\<exists>x. map_of ?refs a = Some x \<and> b \<in> set (h' x))))" by blast
  qed
  have "relate_all ?keys ?keys ?refs h' library = (h', None)"
    by (rule relate_all_closed[OF closed])
  then have second: "build_relationships g' library = (g', None)"
    by (simp add: build_relationships_def sl ob g'_def)
  have unshared: "\<forall>a b ma mb. a \<in> set ?keys \<and> b \<in> set ?keys
        \<and> map_of library a = Some ma \<and> map_of library b = Some mb
      \<longrightarrow> (b \<in> successors (contents g') a \<longleftrightarrow>
             causal ma mb \<or> b \<in> successors (contents graph) a)"
    if inj: "\<forall>a\<in>set ?keys. \<forall>a'\<in>set ?keys. map_of ?refs a = map_of ?refs a' \<longrightarrow> a = a'"
  proof (intro allI impI)
    fix a b ma mb
    assume h: "a \<in> set ?keys \<and> b \<in> set ?keys
        \<and> map_of library a = Some ma \<and> map_of library b = Some mb"
    have "(\<exists>a'\<in>set ?keys. \<exists>ma'. map_of ?refs a' = map_of ?refs a
            \<and> map_of library a' = Some ma' \<and> causal ma' mb) \<longleftrightarrow> causal ma mb"
      using inj h by (metis option.inject)
    with rel h show "b \<in> successors (contents g') a \<longleftrightarrow>
             causal ma mb \<or> b \<in> successors (contents graph) a"
      by blast
  qed
  show ?thesis using first second sl rel unshared by blast
qed

lemma scenario_build_relationships:
  "snd (build_relationships scenario_skeleton scenario_library) = None
   \<and> contents (fst (build_relationships scenario_skeleton scenario_library)) = scenario_graph"
  by (simp add: build_relationships_def scenario_skeleton_def scenario_library_def
        scenario_graph_def contents_def causal_def set_add_def)

theorem build_relationships_idempotent_sharing_witness:
  "snd (build_relationships scenario_skeleton scenario_library) = None
   \<and> contents (fst (build_relationships scenario_skeleton scenario_library)) = scenario_graph
   \<and> build_relationships (fst (build_relationships scenario_skeleton scenario_library))
        scenario_library
       = (fst (build_relationships scenario_skeleton scenario_library), None)
   \<and> 2 \<in> successors (contents (fst (build_relationships scenario_skeleton scenario_library))) 1
   \<and> 2 \<notin> successors (contents (fst (build_relationships scenario_skeleton scenario_library))) 2"
proof -
  let ?m1 = "\<lparr>id_msg = 1, origin = ''X'', destination = ''Y'', operation = ''login'',
              direction = REQ, position = INITIAL\<rparr>"
  let ?m2 = "\<lparr>id_msg = 2, origin = ''Y'', destination = ''X'', operation = ''login-ack'',
              direction = RESP, position = FINAL\<rparr>"
  have h: "\<forall>k\<in>set (map fst (slots scenario_skeleton)). map_of scenario_library k \<noteq> None"
    by (simp add: scenario_skeleton_def scenario_library_def)
  have i: "\<forall>a\<in>set (map fst (slots scenario_skeleton)).
      \<forall>a'\<in>set (map fst (slots scenario_skeleton)).
        map_of (slots scenario_skeleton) a = map_of (slots scenario_skeleton) a' \<longrightarrow> a = a'"
    by (simp add: scenario_skeleton_def)
  from build_relationships_idempotent_sharing[OF h] i obtain g' where
    g': "build_relationships scenario_skeleton scenario_library = (g', None)"
    and again: "build_relationships g' scenario_library = (g', None)"
    and own: "\<forall>a b ma mb. a \<in> set (map fst (slots scenario_skeleton))
        \<and> b \<in> set (map fst (slots scenario_skeleton))
        \<and> map_of scenario_library a = Some ma \<and> map_of scenario_library b = Some mb
      \<longrightarrow> (b \<in> successors (contents g') a \<longleftrightarrow>
             causal ma mb \<or> b \<in> successors (contents scenario_skeleton) a)"
    by blast
  have k: "1 \<in> set (map fst (slots scenario_skeleton))"
    "2 \<in> set (map fst (slots scenario_skeleton))"
    by (simp_all add: scenario_skeleton_def)
  have l: "map_of scenario_library 1 = Some ?m1" "map_of scenario_library 2 = Some ?m2"
    by (simp_all add: scenario_library_def)
  have e: "2 \<notin> successors (contents scenario_skeleton) 1"
    "2 \<notin> successors (contents scenario_skeleton) 2"
    by (simp_all add: successors_def contents_def scenario_skeleton_def)
  have "2 \<in> successors (contents g') 1 \<longleftrightarrow> causal ?m1 ?m2"
    using own k l e(1) by blast
  then have one: "2 \<in> successors (contents g') 1" by (simp add: causal_def)
  have "2 \<in> successors (contents g') 2 \<longleftrightarrow> causal ?m2 ?m2"
    using own k l e(2) by blast
  then have two: "2 \<notin> successors (contents g') 2" by (simp add: causal_def)
  show ?thesis
    using g' again one two scenario_build_relationships by simp
qed

section \<open>Unknown identifiers\<close>

lemma rbs_error_key:
  "recursive_build_sequences s acc dest k g lib = (d', Some e) \<Longrightarrow>
     \<exists>j. e = KeyError j \<and> lookup_fails g lib j"
  "explore_successors ns nacc dest k g lib = (d', Some e) \<Longrightarrow>
     \<exists>j. e = KeyError j \<and> lookup_fails g lib j"
proof (induction s acc dest k g lib and ns nacc dest k g lib
       arbitrary: d' e and d' e
       rule: recursive_build_sequences_explore_successors.induct)
  case (1 s acc dest k g lib)
  show ?case
  proof (cases "s \<in> set acc")
    case True
    then show ?thesis using "1.prems" by (simp add: rbs_cycle)
  next
    case g1: False
    show ?thesis
    proof (cases "k < int (length acc) + 1")
      case True
      then show ?thesis using "1.prems" by (simp add: rbs_too_deep)
    next
      case False
      then have g2: "int (length acc) + 1 \<le> k" by simp
      show ?thesis
      proof (cases "map_of lib s")
        case None
        have "recursive_build_sequences s acc dest k g lib = (dest, Some (KeyError s))"
          by (rule rbs_unknown[OF g1 g2 None])
        with "1.prems" have "e = KeyError s" by simp
        then show ?thesis using None by (simp add: lookup_fails_def)
      next
        case (Some m)
        show ?thesis
        proof (cases "position m = FINAL")
          case True
          have "recursive_build_sequences s acc dest k g lib = (dest @ [acc @ [s]], None)"
            by (rule rbs_final[OF g1 g2 Some True])
          with "1.prems" show ?thesis by simp
        next
          case nf: False
          show ?thesis
          proof (cases "map_of g s")
            case None
            have "recursive_build_sequences s acc dest k g lib = (dest, Some (KeyError s))"
              by (rule rbs_no_successors[OF g1 g2 Some nf None])
            with "1.prems" have "e = KeyError s" by simp
            then show ?thesis using Some nf None by (simp add: lookup_fails_def)
          next
            case succ: (Some ns)
            have ex: "explore_successors ns (acc @ [s]) dest k g lib = (d', Some e)"
              using "1.prems" rbs_descend[OF g1 g2 Some nf succ, of dest] by simp
            have g2': "\<not> k < int (length (acc @ [s]))" using g2 by simp
            show ?thesis by (rule "1.IH"[OF g1 refl g2' Some nf succ ex])
          qed
        qed
      qed
    qed
  qed
next
  case (2 nacc dest k g lib)
  then show ?case by simp
next
  case (3 n rest nacc dest k g lib)
  obtain d1 e1 where r: "recursive_build_sequences n nacc dest k g lib = (d1, e1)"
    by (cases "recursive_build_sequences n nacc dest k g lib")
  show ?case
  proof (cases e1)
    case (Some err)
    with r "3.prems" have "e = err" by simp
    with "3.IH"(1)[of d1 err] r Some show ?thesis by simp
  next
    case None
    with r "3.prems" have ex: "explore_successors rest nacc d1 k g lib = (d', Some e)" by simp
    show ?thesis by (rule "3.IH"(2)[OF r[symmetric] None ex])
  qed
qed

lemma explore_successors_raises:
  assumes "y \<in> set ns"
    and "\<And>dest. \<exists>d e. recursive_build_sequences y nacc dest k g lib = (d, Some e)"
  shows "\<exists>d e. explore_successors ns nacc dest k g lib = (d, Some e)"
  using assms(1)
proof (induction ns arbitrary: dest)
  case Nil
  then show ?case by simp
next
  case (Cons n ns)
  obtain d1 e1 where r: "recursive_build_sequences n nacc dest k g lib = (d1, e1)"
    by (cases "recursive_build_sequences n nacc dest k g lib")
  show ?case
  proof (cases e1)
    case (Some err)
    with r show ?thesis by simp
  next
    case None
    have "n \<noteq> y"
    proof
      assume "n = y"
      with assms(2)[of dest] r None show False by simp
    qed
    with Cons.prems have "y \<in> set ns" by simp
    from Cons.IH[OF this, of d1] r None show ?thesis by simp
  qed
qed

lemma rbs_raises:
  assumes "p \<noteq> []" "distinct (acc @ p)" "int (length (acc @ p)) \<le> k"
    "explored_path g lib p" "lookup_fails g lib (last p)"
  shows "\<exists>d e. recursive_build_sequences (hd p) acc dest k g lib = (d, Some e)"
  using assms
proof (induction p arbitrary: acc dest)
  case Nil
  then show ?case by simp
next
  case (Cons s p)
  have g1: "s \<notin> set acc" using Cons.prems(2) by auto
  have g2: "int (length acc) + 1 \<le> k" using Cons.prems(3) by simp
  show ?case
  proof (cases p)
    case Nil
    with Cons.prems(5) have f: "lookup_fails g lib s" by simp
    show ?thesis
    proof (cases "map_of lib s")
      case None
      then show ?thesis using rbs_unknown[OF g1 g2 None, of dest g] by simp
    next
      case (Some m)
      with f have nf: "position m \<noteq> FINAL" and ng: "map_of g s = None"
        by (simp_all add: lookup_fails_def)
      show ?thesis using rbs_no_successors[OF g1 g2 Some nf ng, of dest] by simp
    qed
  next
    case (Cons y rest)
    with Cons.prems(4) obtain m ns where m: "map_of lib s = Some m"
      and nf: "position m \<noteq> FINAL" and ns: "map_of g s = Some ns" and y: "y \<in> set ns"
      and ep: "explored_path g lib p"
      by (auto split: option.splits)
    have p: "p \<noteq> []" using Cons by simp
    have d: "distinct ((acc @ [s]) @ p)" using Cons.prems(2) by simp
    have l: "int (length ((acc @ [s]) @ p)) \<le> k" using Cons.prems(3) by simp
    have lf: "lookup_fails g lib (last p)" using Cons.prems(5) p by simp
    have "\<exists>d e. recursive_build_sequences y (acc @ [s]) dest' k g lib = (d, Some e)"
      for dest'
      using Cons.IH[OF p d l ep lf, of dest'] Cons by simp
    from explore_successors_raises[OF y this, of dest]
    show ?thesis using rbs_descend[OF g1 g2 m nf ns, of dest] by simp
  qed
qed

lemma build_sequences_raises:
  assumes "p \<noteq> []" "distinct p" "int (length p) \<le> k"
    "explored_path g lib p" "lookup_fails g lib (last p)"
  shows "\<exists>j. build_sequences (hd p) k g lib = Inl (KeyError j) \<and> lookup_fails g lib j"
proof -
  from rbs_raises[of p "[]" k g lib "[]"] assms
  obtain d e where r: "recursive_build_sequences (hd p) [] [] k g lib = (d, Some e)"
    by auto
  from rbs_error_key(1)[OF r] obtain j where "e = KeyError j" "lookup_fails g lib j"
    by blast
  with r show ?thesis by (simp add: build_sequences_def)
qed

lemma build_sequences_unknown_start:
  assumes "map_of lib s = None"
  shows "build_sequences s k g lib = (if 1 \<le> k then Inl (KeyError s) else Inr [])"
proof (cases "1 \<le> k")
  case True
  then have "recursive_build_sequences s [] [] k g lib = ([], Some (KeyError s))"
    using rbs_unknown[of s "[]" k lib "[]" g] assms by simp
  with True show ?thesis by (simp add: build_sequences_def)
next
  case False
  then show ?thesis by (simp add: build_sequences_nonpositive)
qed

lemma relate_to_raises:
  assumes "map_of refs a \<noteq> None" "bs \<noteq> []"
    "map_of lib a = None \<or> (\<exists>b\<in>set bs. map_of lib b = None)"
  shows "\<exists>h' j. relate_to a bs refs h lib = (h', Some (KeyError j)) \<and> map_of lib j = None"
  using assms(2,3)
proof (induction bs arbitrary: h)
  case Nil
  then show ?case by simp
next
  case (Cons b bs)
  show ?case
  proof (cases "map_of lib a")
    case None
    then show ?thesis by simp
  next
    case a: (Some ma)
    show ?thesis
    proof (cases "map_of lib b")
      case None
      with a show ?thesis by simp
    next
      case b: (Some mb)
      with a Cons.prems(2) have later: "map_of lib a = None \<or> (\<exists>b\<in>set bs. map_of lib b = None)"
        by auto
      with a have ne: "bs \<noteq> []" by auto
      from assms(1) obtain r where r: "map_of refs a = Some r" by auto
      show ?thesis
      proof (cases "causal ma mb")
        case True
        from Cons.IH[OF ne later, of "h(r := set_add (h r) b)"] obtain h' j where
          "relate_to a bs refs (h(r := set_add (h r) b)) lib = (h', Some (KeyError j))"
          and "map_of lib j = None" by blast
        then show ?thesis using a b True r by simp
      next
        case False
        from Cons.IH[OF ne later, of h] obtain h' j where
          "relate_to a bs refs h lib = (h', Some (KeyError j))"
          and "map_of lib j = None" by blast
        then show ?thesis using a b False by simp
      qed
    qed
  qed
qed

lemma build_relationships_raises:
  assumes "\<exists>k\<in>set (map fst (slots store)). map_of library k = None"
  shows "\<exists>store' j. build_relationships store library = (store', Some (KeyError j))
           \<and> map_of library j = None"
proof (cases "slots store")
  case Nil
  with assms show ?thesis by simp
next
  case (Cons entry rest)
  obtain a r where e: "entry = (a, r)" by (cases entry)
  have keys: "map fst (slots store) = a # map fst rest" using Cons e by simp
  have ga: "map_of (slots store) a \<noteq> None" using Cons e by simp
  have ne: "map fst (slots store) \<noteq> []" using keys by simp
  have "map_of library a = None \<or> (\<exists>b\<in>set (map fst (slots store)). map_of library b = None)"
    using assms by blast
  from relate_to_raises[OF ga ne this, of "objects store"]
  obtain h' j where
    rt: "relate_to a (map fst (slots store)) (slots store) (objects store) library
          = (h', Some (KeyError j))"
    and j: "map_of library j = None" by blast
  have "relate_all (a # map fst rest) (map fst (slots store)) (slots store) (objects store)
      library = (h', Some (KeyError j))"
    using rt by simp
  then have "build_relationships store library = (store\<lparr>objects := h'\<rparr>, Some (KeyError j))"
    unfolding build_relationships_def by (subst (1) keys) simp
  with j show ?thesis by blast
qed

lemma raising_path_single:
  assumes "s \<notin> set acc" "int (length acc) + 1 \<le> k" "lookup_fails g lib s"
  shows "raising_path g lib k acc [s]"
  using assms by (simp add: raising_path_def)

lemma raising_path_extend:
  assumes p: "raising_path g lib k (acc @ [s]) p" and n: "hd p \<in> set ns"
    and s: "s \<notin> set acc" and m: "map_of lib s = Some m" and nf: "position m \<noteq> FINAL"
    and ns: "map_of g s = Some ns"
  shows "raising_path g lib k acc (s # p)"
proof -
  from p obtain n rest where pr: "p = n # rest" by (cases p) (auto simp: raising_path_def)
  with n have "n \<in> set ns" by simp
  then have "explored_path g lib (s # n # rest)"
    using p pr m nf ns by (simp add: raising_path_def)
  moreover have "distinct (s # p)" "set (s # p) \<inter> set acc = {}"
    using p s by (auto simp: raising_path_def)
  moreover have "int (length acc + length (s # p)) \<le> k"
    using p by (simp add: raising_path_def)
  moreover have "lookup_fails g lib (last (s # p))"
    using p by (simp add: raising_path_def)
  ultimately show ?thesis using pr by (simp add: raising_path_def)
qed

lemma rbs_error_path:
  "recursive_build_sequences s acc dest k g lib = (d', Some e) \<Longrightarrow>
     \<exists>p. hd p = s \<and> raising_path g lib k acc p \<and> e = KeyError (last p)"
  "explore_successors ns nacc dest k g lib = (d', Some e) \<Longrightarrow>
     \<exists>p. hd p \<in> set ns \<and> raising_path g lib k nacc p \<and> e = KeyError (last p)"
proof (induction s acc dest k g lib and ns nacc dest k g lib
       arbitrary: d' e and d' e
       rule: recursive_build_sequences_explore_successors.induct)
  case (1 s acc dest k g lib)
  show ?case
  proof (cases "s \<in> set acc")
    case True
    then show ?thesis using "1.prems" by (simp add: rbs_cycle)
  next
    case g1: False
    show ?thesis
    proof (cases "k < int (length acc) + 1")
      case True
      then show ?thesis using "1.prems" by (simp add: rbs_too_deep)
    next
      case False
      then have g2: "int (length acc) + 1 \<le> k" by simp
      show ?thesis
      proof (cases "map_of lib s")
        case None
        have "recursive_build_sequences s acc dest k g lib = (dest, Some (KeyError s))"
          by (rule rbs_unknown[OF g1 g2 None])
        with "1.prems" have e: "e = KeyError s" by simp
        have "lookup_fails g lib s" using None by (simp add: lookup_fails_def)
        from raising_path_single[OF g1 g2 this] e show ?thesis
          by (intro exI[of _ "[s]"]) simp
      next
        case (Some m)
        show ?thesis
        proof (cases "position m = FINAL")
          case True
          have "recursive_build_sequences s acc dest k g lib = (dest @ [acc @ [s]], None)"
            by (rule rbs_final[OF g1 g2 Some True])
          with "1.prems" show ?thesis by simp
        next
          case nf: False
          show ?thesis
          proof (cases "map_of g s")
            case None
            have "recursive_build_sequences s acc dest k g lib = (dest, Some (KeyError s))"
              by (rule rbs_no_successors[OF g1 g2 Some nf None])
            with "1.prems" have e: "e = KeyError s" by simp
            have "lookup_fails g lib s" using Some nf None by (simp add: lookup_fails_def)
            from raising_path_single[OF g1 g2 this] e show ?thesis
              by (intro exI[of _ "[s]"]) simp
          next
            case succ: (Some ns)
            have ex: "explore_successors ns (acc @ [s]) dest k g lib = (d', Some e)"
              using "1.prems" rbs_descend[OF g1 g2 Some nf succ, of dest] by simp
            have g2': "\<not> k < int (length (acc @ [s]))" using g2 by simp
            from "1.IH"[OF g1 refl g2' Some nf succ ex] obtain p where
              n: "hd p \<in> set ns" and p: "raising_path g lib k (acc @ [s]) p"
              and e: "e = KeyError (last p)" by blast
            have ne: "p \<noteq> []" using p by (simp add: raising_path_def)
            from raising_path_extend[OF p n g1 Some nf succ] e ne show ?thesis
              by (intro exI[of _ "s # p"]) simp
          qed
        qed
      qed
    qed
  qed
next
  case (2 nacc dest k g lib)
  then show ?case by simp
next
  case (3 n rest nacc dest k g lib)
  obtain d1 e1 where r: "recursive_build_sequences n nacc dest k g lib = (d1, e1)"
    by (cases "recursive_build_sequences n nacc dest k g lib")
  show ?case
  proof (cases e1)
    case (Some err)
    with r "3.prems" have "e = err" by simp
    with "3.IH"(1)[of d1 err] r Some obtain p where
      "hd p = n" "raising_path g lib k nacc p" "e = KeyError (last p)" by auto
    then show ?thesis by (intro exI[of _ p]) simp
  next
    case None
    with r "3.prems" have ex: "explore_successors rest nacc d1 k g lib = (d', Some e)" by simp
    from "3.IH"(2)[OF r[symmetric] None ex] obtain p where
      "hd p \<in> set rest" "raising_path g lib k nacc p" "e = KeyError (last p)" by blast
    then show ?thesis by (intro exI[of _ p]) simp
  qed
qed

lemma build_sequences_error_path:
  assumes "build_sequences s k g lib = Inl e"
  shows "\<exists>p. p \<noteq> [] \<and> hd p = s \<and> distinct p \<and> int (length p) \<le> k
           \<and> explored_path g lib p \<and> lookup_fails g lib (last p) \<and> e = KeyError (last p)"
proof -
  obtain d r where r: "recursive_build_sequences s [] [] k g lib = (d, r)"
    by (cases "recursive_build_sequences s [] [] k g lib")
  with assms have "r = Some e" by (cases r) (simp_all add: build_sequences_def)
  with rbs_error_path(1)[of s "[]" "[]" k g lib d e] r obtain p where
    "hd p = s" "raising_path g lib k [] p" "e = KeyError (last p)" by auto
  then show ?thesis by (intro exI[of _ p]) (simp add: raising_path_def)
qed

text \<open>
  The claim as stated fails: the depth guard comes before every lookup, so an unknown
  start id with \<open>max_depth = 0\<close> yields the empty list; an unknown id that an edge leads
  to beyond the depth is never looked up; and a FINAL message that is no key of the
  graph is emitted without a lookup in the graph.
\<close>

theorem unknown_identifier_not_always_raised:
  "map_of scenario_library 7 = None
   \<and> build_sequences 7 0 scenario_graph scenario_library = Inr []
   \<and> map_of dangling_graph 1 = Some [9]
   \<and> map_of scenario_library 9 = None
   \<and> map_of dangling_graph 9 = None
   \<and> build_sequences 1 1 dangling_graph scenario_library = Inr []
   \<and> map_of final_only_in_library_graph 1 = Some [2]
   \<and> map_of final_only_in_library_graph 2 = None
   \<and> build_sequences 1 2 final_only_in_library_graph scenario_library = Inr [[1, 2]]"
  by (simp add: build_sequences_def scenario_library_def scenario_graph_def
        dangling_graph_def final_only_in_library_graph_def recursive_build_sequences.simps)

text \<open>
  Claim C9, amended. A start id that is no key of the library makes \<open>build_sequences\<close>
  raise \<open>KeyError\<close> of that id when \<open>max_depth\<close> is at least 1, and return the empty list
  otherwise. More generally, when the enumeration can walk a repetition-free path of at
  most \<open>max_depth\<close> ids, each but the last a non-FINAL message of the library with an
  edge to the next, and the last id is no key of the library, or is a non-FINAL message
  and no key of the graph, then \<open>build_sequences\<close> from the first id raises \<open>KeyError\<close>
  of such an id. \<open>build_relationships\<close> raises \<open>KeyError\<close> of an id missing from the
  library when some key of the graph is no key of the library. \<open>build_sequences\<close>
  returns the exception alone whenever the recursion raises, whatever it had collected.
  Conversely, whenever \<open>build_sequences\<close> raises, the exception is \<open>KeyError\<close> of the
  last id of such a path from the start id: nothing is raised for an id that no call
  looks up.
\<close>

theorem unknown_identifier_raises_within_depth:
  "(map_of library starting_id = None \<longrightarrow>
      build_sequences starting_id max_depth graph library
        = (if 1 \<le> max_depth then Inl (KeyError starting_id) else Inr []))
   \<and> (p \<noteq> [] \<and> distinct p \<and> int (length p) \<le> max_depth
        \<and> explored_path graph library p \<and> lookup_fails graph library (last p) \<longrightarrow>
      (\<exists>j. build_sequences (hd p) max_depth graph library = Inl (KeyError j)
           \<and> lookup_fails graph library j))
   \<and> ((\<exists>k\<in>set (map fst (slots store)). map_of library k = None) \<longrightarrow>
      (\<exists>store' j. build_relationships store library = (store', Some (KeyError j))
           \<and> map_of library j = None))
   \<and> (recursive_build_sequences starting_id [] [] max_depth graph library = (dest, Some e)
        \<longrightarrow> build_sequences starting_id max_depth graph library = Inl e)
   \<and> (build_sequences starting_id max_depth graph library = Inl e \<longrightarrow>
      (\<exists>q. q \<noteq> [] \<and> hd q = starting_id \<and> distinct q \<and> int (length q) \<le> max_depth
           \<and> explored_path graph library q \<and> lookup_fails graph library (last q)
           \<and> e = KeyError (last q)))"
proof (intro conjI)
  show "map_of library starting_id = None \<longrightarrow>
      build_sequences starting_id max_depth graph library
        = (if 1 \<le> max_depth then Inl (KeyError starting_id) else Inr [])"
    using build_sequences_unknown_start by blast
next
  show "p \<noteq> [] \<and> distinct p \<and> int (length p) \<le> max_depth
        \<and> explored_path graph library p \<and> lookup_fails graph library (last p) \<longrightarrow>
      (\<exists>j. build_sequences (hd p) max_depth graph library = Inl (KeyError j)
           \<and> lookup_fails graph library j)"
    using build_sequences_raises by blast
next
  show "(\<exists>k\<in>set (map fst (slots store)). map_of library k = None) \<longrightarrow>
      (\<exists>store' j. build_relationships store library = (store', Some (KeyError j))
           \<and> map_of library j = None)"
    using build_relationships_raises by blast
next
  show "recursive_build_sequences starting_id [] [] max_depth graph library = (dest, Some e)
        \<longrightarrow> build_sequences starting_id max_depth graph library = Inl e"
    by (simp add: build_sequences_def)
next
  show "build_sequences starting_id max_depth graph library = Inl e \<longrightarrow>
      (\<exists>q. q \<noteq> [] \<and> hd q = starting_id \<and> distinct q \<and> int (length q) \<le> max_depth
           \<and> explored_path graph library q \<and> lookup_fails graph library (last q)
           \<and> e = KeyError (last q))"
    using build_sequences_error_path by blast
qed

lemma dangling_build_sequences:
  "build_sequences 1 2 dangling_graph scenario_library = Inl (KeyError 9)"
  by (simp add: build_sequences_def scenario_library_def dangling_graph_def
        recursive_build_sequences.simps)

text \<open>
  The graph is updated in place: edges added before the failing lookup stay in the
  caller's graph when \<open>build_relationships\<close> raises.
\<close>

lemma build_relationships_partial_update:
  "snd (build_relationships unknown_key_skeleton scenario_library) = Some (KeyError 9)
   \<and> contents (fst (build_relationships unknown_key_skeleton scenario_library))
       = [(1, [2]), (2, []), (9, [])]"
  by (simp add: build_relationships_def unknown_key_skeleton_def scenario_library_def
        contents_def causal_def set_add_def)

theorem unknown_identifier_raises_within_depth_witness:
  "build_sequences 7 1 scenario_graph scenario_library = Inl (KeyError 7)
   \<and> recursive_build_sequences 7 [] [] 1 scenario_graph scenario_library
       = ([], Some (KeyError 7))
   \<and> build_sequences 7 0 scenario_graph scenario_library = Inr []
   \<and> build_sequences 1 2 dangling_graph scenario_library = Inl (KeyError 9)
   \<and> explored_path dangling_graph scenario_library [1, 9]
   \<and> lookup_fails dangling_graph scenario_library 9
   \<and> snd (build_relationships unknown_key_skeleton scenario_library) = Some (KeyError 9)"
proof -
  have a: "map_of scenario_library 7 = None" by (simp add: scenario_library_def)
  have p: "explored_path dangling_graph scenario_library [1, 9]"
    by (simp add: scenario_library_def dangling_graph_def)
  have f: "lookup_fails dangling_graph scenario_library 9"
    by (simp add: lookup_fails_def scenario_library_def)
  have k: "\<exists>k\<in>set (map fst (slots unknown_key_skeleton)). map_of scenario_library k = None"
    by (simp add: unknown_key_skeleton_def scenario_library_def)
  note t1 = unknown_identifier_raises_within_depth
    [where library = scenario_library and starting_id = 7 and max_depth = 1
       and graph = scenario_graph and p = "[7]" and dest = "[]" and e = "KeyError 7"
       and store = scenario_skeleton]
  note t0 = unknown_identifier_raises_within_depth
    [where library = scenario_library and starting_id = 7 and max_depth = 0
       and graph = scenario_graph and p = "[7]" and dest = "[]" and e = ValueError
       and store = scenario_skeleton]
  note t2 = unknown_identifier_raises_within_depth
    [where library = scenario_library and starting_id = 1 and max_depth = 2
       and graph = dangling_graph and p = "[1, 9]" and dest = "[]" and e = ValueError
       and store = scenario_skeleton]
  note t3 = unknown_identifier_raises_within_depth
    [where library = scenario_library and graph = scenario_graph
       and store = unknown_key_skeleton
       and starting_id = 1 and max_depth = 0 and p = "[]" and dest = "[]" and e = ValueError]
  have r: "recursive_build_sequences 7 [] [] 1 scenario_graph scenario_library
      = ([], Some (KeyError 7))"
    by (simp add: recursive_build_sequences.simps scenario_library_def)
  have "build_sequences 7 1 scenario_graph scenario_library = Inl (KeyError 7)"
    using t1 r by simp
  moreover have "build_sequences 7 0 scenario_graph scenario_library = Inr []"
    using t0 a by simp
  moreover have "\<exists>j. build_sequences 1 2 dangling_graph scenario_library = Inl (KeyError j)"
    using t2 p f by auto
  moreover have "\<exists>store' j. build_relationships unknown_key_skeleton scenario_library
      = (store', Some (KeyError j))"
    using t3 k by blast
  ultimately show ?thesis
    using r p f dangling_build_sequences build_relationships_partial_update by simp
qed

end
